theory Spec2Isabelle
  imports Main "HOL-Library.Sublist" "HOL-Library.Word" "HOL-Library.AList" "HOL-Library.Multiset"
begin

section \<open>Key decomposition\<close>

text \<open>
  Keys of a TSM index are byte slices; they are modelled as \<open>string\<close> (a list of bytes).
  \<open>bytes.Index(s, sep)\<close> of the Go standard library is the position of the first
  occurrence of \<open>sep\<close> in \<open>s\<close>, or \<open>-1\<close> (here \<open>None\<close>) when there is none.
\<close>

fun bytes_Index :: "string \<Rightarrow> string \<Rightarrow> nat option" where
  "bytes_Index [] sep = (if sep = [] then Some 0 else None)"
| "bytes_Index (c # cs) sep =
     (if prefix sep (c # cs) then Some 0 else map_option Suc (bytes_Index cs sep))"

text \<open>
  \<open>bytes.Cut(s, sep)\<close>: \<open>s[:i], s[i+len(sep):], true\<close> at the first occurrence,
  \<open>s, nil, false\<close> when \<open>sep\<close> does not occur.
\<close>

definition bytes_Cut :: "string \<Rightarrow> string \<Rightarrow> string \<times> string \<times> bool" where
  "bytes_Cut s sep =
     (case bytes_Index s sep of
        Some i \<Rightarrow> (take i s, drop (i + length sep) s, True)
      | None \<Rightarrow> (s, [], False))"

text \<open>The separator between series key and field name in a TSM key (line 118).\<close>

definition keyFieldSeparator :: string where
  "keyFieldSeparator = ''#!~#''"

section \<open>Counters\<close>

text \<open>
  \<open>report.Counter\<close> is an interface with \<open>Add(item []byte)\<close> and \<open>Count() uint64\<close>.
  Its two implementations live in \<open>cmd/influx_inspect/report\<close>. The HyperLogLog sketch
  is kept abstract: its state is the type parameter \<open>'h\<close> and its three operations are
  fields of the environment below.
\<close>

datatype 'h counter = ExactCounter "string set" | HLLCounter 'h

datatype tsm_file =
    OpenFails string
  | ReaderFails string
  | Reader "string list" "string option"

datatype node =
    File string
  | Dir string "string option" "node list"
  | LstatFails string string

datatype diag =
    NoShards string
  | Skipping string string
  | ErrorClosing string string
  | ShardError string string

datatype line =
    Header
  | Dashes
  | Row string string string "64 word" "64 word" "64 word"
  | Total string "64 word" "64 word" "64 word"

text \<open>
  Everything \<open>Run\<close> takes from outside the file: the operating system, the Go runtime
  and the packages \<open>tsdb\<close>, \<open>tsm1\<close>, \<open>models\<close>, \<open>report\<close> and \<open>reporthelper\<close>.

  \<^item> \<open>fsys path\<close> is the file tree \<open>filepath.Walk\<close> finds at \<open>path\<close>: \<open>File name\<close> is
    any entry that is not a directory, \<open>Dir name err entries\<close> a directory with the
    error of reading its entry names (if any) and its entries in the order
    \<open>filepath.Walk\<close> visits them, \<open>LstatFails name err\<close> an entry whose \<open>Lstat\<close> fails.
  \<^item> \<open>shardFiles p\<close> is what \<open>reporthelper.WalkShardDirs\<close> finds under the shard
    path \<open>p\<close>: an error of its own directory walk, or the \<open>(db, rp, id, path)\<close> tuples
    in the order it hands them to its callback.
  \<^item> \<open>openTSM path\<close> is the outcome of \<open>os.OpenFile\<close> followed by
    \<open>tsm1.NewTSMReader\<close>: \<open>OpenFails err\<close>, \<open>ReaderFails err\<close>, or \<open>Reader keys cerr\<close>,
    a reader whose index holds \<open>keys\<close> (\<open>KeyCount\<close> is their number, \<open>KeyAt i\<close> the
    \<open>i\<close>-th) and whose \<open>Close\<close> returns \<open>cerr\<close>.
  \<^item> \<open>parseKey\<close> is the measurement name \<open>models.ParseKey\<close> returns.
  \<^item> \<open>stderrFail\<close>, \<open>twFail\<close> and \<open>flushFail\<close> say which writes fail, given what has
    been written so far.
  \<^item> \<open>rangeShardPaths\<close>, \<open>rangeDatabases\<close>, \<open>rangeRetentionPolicies\<close> and
    \<open>rangeMeasurements\<close> are the orders in which the Go runtime lets \<open>range\<close> visit
    the entries of \<open>cmd.shardPaths\<close> (line 101) and of the three levels of the index
    (lines 146 to 148). Go leaves the order of \<open>range\<close> over a map unspecified; each
    function takes the entries of a map and returns them in the order of the visit.
\<close>

record 'h env =
  gomaxprocs :: int
  seriesFileDirectory :: string
  fsys :: "string \<Rightarrow> node"
  shardFiles :: "string \<Rightarrow> string + (string \<times> string \<times> string \<times> string) list"
  openTSM :: "string \<Rightarrow> tsm_file"
  parseKey :: "string \<Rightarrow> string"
  hllNew :: 'h
  hllAdd :: "string \<Rightarrow> 'h \<Rightarrow> 'h"
  hllCount :: "'h \<Rightarrow> 64 word"
  stderrFail :: "diag list \<Rightarrow> diag \<Rightarrow> string option"
  twFail :: "line list \<Rightarrow> line \<Rightarrow> string option"
  flushFail :: "line list \<Rightarrow> string option"
  rangeShardPaths :: "(64 word \<times> string) list \<Rightarrow> (64 word \<times> string) list"
  rangeDatabases ::
    "(string \<times> (string \<times> (string \<times> nat) list) list) list
       \<Rightarrow> (string \<times> (string \<times> (string \<times> nat) list) list) list"
  rangeRetentionPolicies ::
    "(string \<times> (string \<times> nat) list) list \<Rightarrow> (string \<times> (string \<times> nat) list) list"
  rangeMeasurements :: "(string \<times> nat) list \<Rightarrow> (string \<times> nat) list"

text \<open>
  A \<open>range\<close> visits every entry of its map once: each order is a permutation of the
  entries.
\<close>

definition fair_range :: "('h, 'z) env_scheme \<Rightarrow> bool" where
  "fair_range e \<longleftrightarrow>
     (\<forall>m. mset (rangeShardPaths e m) = mset m) \<and>
     (\<forall>m. mset (rangeDatabases e m) = mset m) \<and>
     (\<forall>m. mset (rangeRetentionPolicies e m) = mset m) \<and>
     (\<forall>m. mset (rangeMeasurements e m) = mset m)"

text \<open>
  Modelled from the spec: the two counters of package \<open>report\<close>, which is not among the
  sources. The exact counter is "backed by a full deduplicating set of seen items;
  \<open>Count()\<close> is the true cardinality"; the approximate one is a sketch.
\<close>

definition NewExactCounter :: "'h counter" where
  "NewExactCounter = ExactCounter {}"

definition NewHLLCounter :: "('h, 'z) env_scheme \<Rightarrow> 'h counter" where
  "NewHLLCounter e = HLLCounter (hllNew e)"

fun Counter_Add :: "('h, 'z) env_scheme \<Rightarrow> string \<Rightarrow> 'h counter \<Rightarrow> 'h counter" where
  "Counter_Add e item (ExactCounter s) = ExactCounter (insert item s)"
| "Counter_Add e item (HLLCounter h) = HLLCounter (hllAdd e item h)"

fun Counter_Count :: "('h, 'z) env_scheme \<Rightarrow> 'h counter \<Rightarrow> 64 word" where
  "Counter_Count e (ExactCounter s) = of_nat (card s)"
| "Counter_Count e (HLLCounter h) = hllCount e h"

section \<open>The index\<close>

text \<open>
  \<open>databaseRetentionPolicies\<close> is a map of maps of maps of pointers to
  \<open>fieldsAndSeries\<close>. The maps are association lists (a key occurs once; a new key goes
  to the end), the pointers are addresses into a heap of \<open>fieldsAndSeries\<close> values, so
  that \<open>Add\<close> through a pointer is an update of the heap and leaves the maps alone.
  The order of the entries in a list is the order of their insertion; it is not the
  order in which \<open>range\<close> visits them, which the environment gives.
\<close>

record 'h fieldsAndSeries =
  fields_counter :: "'h counter"
  series :: "'h counter"

type_synonym measurementFieldsAndSeries = "(string \<times> nat) list"
type_synonym retentionPolicyMeasurements = "(string \<times> measurementFieldsAndSeries) list"
type_synonym databaseRetentionPolicies = "(string \<times> retentionPolicyMeasurements) list"

record 'h store =
  dbMap :: databaseRetentionPolicies
  heap :: "'h fieldsAndSeries list"

text \<open>
  \<open>initFieldsAndSeries\<close> (lines 185 to 202). A missing \<open>db\<close> or \<open>rp\<close> level is made
  empty and stored in its parent; as Go maps are references, the later stores into
  \<open>rpMap\<close> and \<open>measurementMap\<close> are seen through \<open>toto\<close>, which the model writes out.
  When \<open>ms\<close> is found, both outer levels were found too and nothing is stored.
  \<open>fn\<close> is the value a call of the factory returns. The field \<open>fields\<close> is named
  \<open>fields_counter\<close> here, as records reserve the name \<open>fields\<close>.
\<close>

definition initFieldsAndSeries ::
  "'h store \<Rightarrow> string \<Rightarrow> string \<Rightarrow> string \<Rightarrow> 'h counter \<Rightarrow> nat \<times> 'h store" where
  "initFieldsAndSeries toto db rp ms fn =
     (let rpMap = (case map_of (dbMap toto) db of Some x \<Rightarrow> x | None \<Rightarrow> []);
          measurementMap = (case map_of rpMap rp of Some x \<Rightarrow> x | None \<Rightarrow> [])
      in case map_of measurementMap ms of
           Some m \<Rightarrow> (m, toto)
         | None \<Rightarrow>
             (let m = length (heap toto)
              in (m, \<lparr>dbMap = AList.update db
                               (AList.update rp (AList.update ms m measurementMap) rpMap)
                               (dbMap toto),
                      heap = heap toto @ [\<lparr>fields_counter = fn, series = fn\<rparr>]\<rparr>)))"

text \<open>The bucket of a triple, read through the maps and the heap.\<close>

definition lookupAddr :: "databaseRetentionPolicies \<Rightarrow> string \<Rightarrow> string \<Rightarrow> string \<Rightarrow> nat option" where
  "lookupAddr toto db rp ms =
     (case map_of toto db of
        None \<Rightarrow> None
      | Some rpMap \<Rightarrow>
          (case map_of rpMap rp of None \<Rightarrow> None | Some measurementMap \<Rightarrow> map_of measurementMap ms))"

definition bucket :: "'h store \<Rightarrow> string \<Rightarrow> string \<Rightarrow> string \<Rightarrow> 'h fieldsAndSeries option" where
  "bucket st db rp ms =
     (case lookupAddr (dbMap st) db rp ms of
        None \<Rightarrow> None
      | Some a \<Rightarrow> if a < length (heap st) then Some (heap st ! a) else None)"

text \<open>
  All \<open>(database, retention policy, measurement, address)\<close> entries of the index, and
  the same entries in the order in which the three nested \<open>range\<close> loops of the report
  (lines 146 to 148) visit them.
\<close>

definition triples :: "databaseRetentionPolicies \<Rightarrow> (string \<times> string \<times> string \<times> nat) list" where
  "triples toto =
     concat (map (\<lambda>(d, db). concat (map (\<lambda>(r, rp). map (\<lambda>(m, a). (d, r, m, a)) rp) db)) toto)"

definition rangeTriples ::
  "('h, 'z) env_scheme \<Rightarrow> databaseRetentionPolicies \<Rightarrow> (string \<times> string \<times> string \<times> nat) list" where
  "rangeTriples e toto =
     concat (map (\<lambda>(d, db).
               concat (map (\<lambda>(r, rp). map (\<lambda>(m, a). (d, r, m, a)) (rangeMeasurements e rp))
                         (rangeRetentionPolicies e db)))
            (rangeDatabases e toto))"

text \<open>\<open>fs.series.Add(item)\<close> and \<open>fs.fields.Add(item)\<close> through the pointer \<open>fs\<close>.\<close>

definition series_Add :: "('h, 'z) env_scheme \<Rightarrow> nat \<Rightarrow> string \<Rightarrow> 'h store \<Rightarrow> 'h store" where
  "series_Add e fs item st =
     st\<lparr>heap := (heap st)[fs := (heap st ! fs)\<lparr>series := Counter_Add e item (series (heap st ! fs))\<rparr>]\<rparr>"

definition fields_Add :: "('h, 'z) env_scheme \<Rightarrow> nat \<Rightarrow> string \<Rightarrow> 'h store \<Rightarrow> 'h store" where
  "fields_Add e fs item st =
     st\<lparr>heap := (heap st)[fs := (heap st ! fs)\<lparr>fields_counter := Counter_Add e item (fields_counter (heap st ! fs))\<rparr>]\<rparr>"

text \<open>The body of the loop over the keys of one file (lines 117 to 122).\<close>

definition processKey ::
  "('h, 'z) env_scheme \<Rightarrow> 'h counter \<Rightarrow> string \<Rightarrow> string \<Rightarrow> 'h store \<Rightarrow> string \<Rightarrow> 'h store" where
  "processKey e newCounterFn db rp st key =
     (case bytes_Cut key keyFieldSeparator of
        (seriesKey, field, _) \<Rightarrow>
          (let measurement = parseKey e seriesKey
           in case initFieldsAndSeries st db rp measurement newCounterFn of
                (fs, st1) \<Rightarrow> fields_Add e fs field (series_Add e fs key st1)))"

section \<open>Shard discovery\<close>

text \<open>
  \<open>strconv.Atoi\<close> of the Go standard library, for a 64-bit \<open>int\<close>: an optional sign,
  then one or more decimal digits, and a value between \<open>- 2 ^ 63\<close> and \<open>2 ^ 63 - 1\<close>;
  anything else is an error (\<open>None\<close>).
\<close>

definition digit :: "char \<Rightarrow> int option" where
  "digit ch = (let n = (of_char ch :: int) in if 48 \<le> n \<and> n \<le> 57 then Some (n - 48) else None)"

fun digits :: "string \<Rightarrow> int \<Rightarrow> int option" where
  "digits [] n = Some n"
| "digits (ch # s) n = (case digit ch of None \<Rightarrow> None | Some d \<Rightarrow> digits s (n * 10 + d))"

definition Atoi :: "string \<Rightarrow> int option" where
  "Atoi s0 =
     (case s0 of
        [] \<Rightarrow> None
      | ch # rest \<Rightarrow>
          (let neg = (ch = CHR ''-'');
               s = (if ch = CHR ''-'' \<or> ch = CHR ''+'' then rest else s0)
           in if s = [] then None
              else case digits s 0 of
                     None \<Rightarrow> None
                   | Some n \<Rightarrow>
                       if neg then (if n \<le> 2 ^ 63 then Some (- n) else None)
                       else (if n < 2 ^ 63 then Some n else None)))"

text \<open>
  \<open>filepath.Walk\<close> of the Go standard library. The callback gets the path, the
  \<open>FileInfo\<close> (name and \<open>IsDir\<close>; \<open>nil\<close> when \<open>Lstat\<close> failed) and the error, and
  answers \<open>nil\<close>, \<open>filepath.SkipDir\<close> or another error. A directory is handed to the
  callback before its entries; \<open>SkipDir\<close> from a directory skips its entries, from
  another entry the rest of the directory it is in.
\<close>

datatype walk_res = WNil | WSkipDir | WErr string

type_synonym fileInfo = "string \<times> bool"

type_synonym 's walkFunc = "string \<Rightarrow> fileInfo option \<Rightarrow> string option \<Rightarrow> 's \<Rightarrow> walk_res \<times> 's"

fun node_name :: "node \<Rightarrow> string" where
  "node_name (File n) = n"
| "node_name (Dir n rerr entries) = n"
| "node_name (LstatFails n err) = n"

fun keeps_walking :: "node \<Rightarrow> bool" where
  "keeps_walking (File n) = False"
| "keeps_walking (Dir n rerr entries) = True"
| "keeps_walking (LstatFails n err) = True"

text \<open>
  \<open>filepath.Clean\<close> and \<open>filepath.Join\<close> of the Go standard library, on Unix. \<open>Clean\<close>
  drops empty elements and \<open>.\<close> elements, lets a \<open>..\<close> element remove the element
  before it (at the root it is dropped, in a relative path with nothing to remove it
  stays), and turns the empty result into \<open>.\<close>. \<open>Join\<close> cleans its elements put
  together with a slash, leading empty elements left out.
\<close>

fun elements :: "string \<Rightarrow> string list" where
  "elements [] = [[]]"
| "elements (ch # s) =
     (if ch = CHR ''/'' then [] # elements s
      else (case elements s of [] \<Rightarrow> [[ch]] | el # els \<Rightarrow> (ch # el) # els))"

fun cleanElements :: "bool \<Rightarrow> string list \<Rightarrow> string list \<Rightarrow> string list" where
  "cleanElements rooted out [] = rev out"
| "cleanElements rooted out (el # els) =
     (if el = [] \<or> el = ''.'' then cleanElements rooted out els
      else if el = ''..'' then
        (case out of
           [] \<Rightarrow> if rooted then cleanElements rooted out els
                 else cleanElements rooted (el # out) els
         | last_el # before \<Rightarrow>
             if last_el = ''..'' then cleanElements rooted (el # out) els
             else cleanElements rooted before els)
      else cleanElements rooted (el # out) els)"

fun joinElements :: "string list \<Rightarrow> string" where
  "joinElements [] = []"
| "joinElements [el] = el"
| "joinElements (el # el2 # els) = el @ ''/'' @ joinElements (el2 # els)"

definition Clean :: "string \<Rightarrow> string" where
  "Clean path =
     (case path of
        [] \<Rightarrow> ''.''
      | ch # s \<Rightarrow>
          (let rooted = (ch = CHR ''/'');
               out = (if rooted then ''/'' else []) @
                     joinElements (cleanElements rooted [] (elements path))
           in if out = [] then ''.'' else out))"

definition Join :: "string \<Rightarrow> string \<Rightarrow> string" where
  "Join dir name =
     (if dir \<noteq> [] then Clean (dir @ ''/'' @ name)
      else if name \<noteq> [] then Clean name
      else [])"

fun walk :: "'s walkFunc \<Rightarrow> string \<Rightarrow> node \<Rightarrow> 's \<Rightarrow> walk_res \<times> 's"
  and walk_names :: "'s walkFunc \<Rightarrow> string \<Rightarrow> node list \<Rightarrow> 's \<Rightarrow> walk_res \<times> 's" where
  "walk walkFn path (File n) st = walkFn path (Some (n, False)) None st"
| "walk walkFn path (LstatFails n err) st = walkFn path None (Some err) st"
| "walk walkFn path (Dir n rerr entries) st =
     (case walkFn path (Some (n, True)) rerr st of
        (err1, st1) \<Rightarrow>
          if rerr \<noteq> None \<or> err1 \<noteq> WNil then (err1, st1)
          else walk_names walkFn path entries st1)"
| "walk_names walkFn path [] st = (WNil, st)"
| "walk_names walkFn path (entry # entries) st =
     (case walk walkFn (Join path (node_name entry)) entry st of
        (err, st1) \<Rightarrow>
          if err = WNil \<or> (err = WSkipDir \<and> keeps_walking entry)
          then walk_names walkFn path entries st1
          else (err, st1))"

definition Walk :: "'s walkFunc \<Rightarrow> string \<Rightarrow> node \<Rightarrow> 's \<Rightarrow> string option \<times> 's" where
  "Walk walkFn root tree st =
     (case walk walkFn root tree st of
        (WErr err, st1) \<Rightarrow> (Some err, st1)
      | (_, st1) \<Rightarrow> (None, st1))"

text \<open>
  The callback of \<open>Run\<close> (lines 64 to 85), on \<open>cmd.shardPaths\<close>. \<open>uint64(id)\<close> is
  \<open>word_of_int id'\<close>. \<open>Walk\<close> never passes a \<open>nil\<close> \<open>FileInfo\<close> without an error.
\<close>

definition discover :: "('h, 'z) env_scheme \<Rightarrow> (64 word \<times> string) list walkFunc" where
  "discover e path info err shardPaths =
     (case err of
        Some x \<Rightarrow> (WErr x, shardPaths)
      | None \<Rightarrow>
          (case info of
             None \<Rightarrow> (WErr ''nil FileInfo'', shardPaths)
           | Some (name, isDir) \<Rightarrow>
               if \<not> isDir then (WNil, shardPaths)
               else if name = seriesFileDirectory e \<or> name = ''index'' then (WSkipDir, shardPaths)
               else (case Atoi name of
                       None \<Rightarrow> (WNil, shardPaths)
                     | Some id' \<Rightarrow> (WNil, AList.update (word_of_int id') path shardPaths))))"

section \<open>Processing the shards\<close>

record 'h pstate =
  store :: "'h store"
  stderr :: "diag list"

definition Fprintf_Stderr :: "('h, 'z) env_scheme \<Rightarrow> diag \<Rightarrow> diag list \<Rightarrow> string option \<times> diag list" where
  "Fprintf_Stderr e d out =
     (case stderrFail e out d of Some err \<Rightarrow> (Some err, out) | None \<Rightarrow> (None, out @ [d]))"

definition Fprint_tw :: "('h, 'z) env_scheme \<Rightarrow> line \<Rightarrow> line list \<Rightarrow> string option \<times> line list" where
  "Fprint_tw e l tw =
     (case twFail e tw l of Some err \<Rightarrow> (Some err, tw) | None \<Rightarrow> (None, tw @ [l]))"

text \<open>A write to standard error whose result the code drops.\<close>

definition warn :: "('h, 'z) env_scheme \<Rightarrow> diag \<Rightarrow> 'h pstate \<Rightarrow> 'h pstate" where
  "warn e d ps = ps\<lparr>stderr := snd (Fprintf_Stderr e d (stderr ps))\<rparr>"

text \<open>
  The callback handed to \<open>WalkShardDirs\<close> (lines 102 to 128). \<open>file.Name()\<close> is the
  path the file was opened with. The loop over \<open>0 ..< KeyCount()\<close> with \<open>KeyAt(i)\<close> is a
  left fold over the keys of the index. Every branch returns \<open>nil\<close>.
\<close>

definition processFile ::
  "('h, 'z) env_scheme \<Rightarrow> 'h counter \<Rightarrow> string \<times> string \<times> string \<times> string \<Rightarrow> 'h pstate
     \<Rightarrow> string option \<times> 'h pstate" where
  "processFile e newCounterFn loc ps =
     (case loc of
        (db, rp, id', path) \<Rightarrow>
          (case openTSM e path of
             OpenFails err \<Rightarrow> (None, warn e (Skipping path err) ps)
           | ReaderFails err \<Rightarrow> (None, warn e (Skipping path err) ps)
           | Reader keys cerr \<Rightarrow>
               (let ps1 = ps\<lparr>store := foldl (processKey e newCounterFn db rp) (store ps) keys\<rparr>
                in case cerr of
                     Some err \<Rightarrow> (None, warn e (ErrorClosing path err) ps1)
                   | None \<Rightarrow> (None, ps1))))"

text \<open>
  Modelled from the spec: \<open>reporthelper.WalkShardDirs\<close>, which is not among the sources.
  It enumerates the \<open>(database, retentionPolicy, shardID, filePath)\<close> tuples of the
  storage files under a shard path and calls the callback on each; an error of the
  enumeration or of a callback ends it.
\<close>

fun forEachFile ::
  "(string \<times> string \<times> string \<times> string \<Rightarrow> 's \<Rightarrow> string option \<times> 's)
     \<Rightarrow> (string \<times> string \<times> string \<times> string) list \<Rightarrow> 's \<Rightarrow> string option \<times> 's" where
  "forEachFile fn [] st = (None, st)"
| "forEachFile fn (loc # locs) st =
     (case fn loc st of
        (Some err, st1) \<Rightarrow> (Some err, st1)
      | (None, st1) \<Rightarrow> forEachFile fn locs st1)"

definition WalkShardDirs ::
  "('h, 'z) env_scheme \<Rightarrow> string
     \<Rightarrow> (string \<times> string \<times> string \<times> string \<Rightarrow> 's \<Rightarrow> string option \<times> 's)
     \<Rightarrow> 's \<Rightarrow> string option \<times> 's" where
  "WalkShardDirs e root fn st =
     (case shardFiles e root of
        Inl err \<Rightarrow> (Some err, st)
      | Inr locs \<Rightarrow> forEachFile fn locs st)"

text \<open>The loop over \<open>cmd.shardPaths\<close> (lines 101 to 133).\<close>

fun processShards ::
  "('h, 'z) env_scheme \<Rightarrow> 'h counter \<Rightarrow> string list \<Rightarrow> 'h pstate \<Rightarrow> string option \<times> 'h pstate" where
  "processShards e newCounterFn [] ps = (None, ps)"
| "processShards e newCounterFn (p # paths) ps =
     (case WalkShardDirs e p (processFile e newCounterFn) ps of
        (Some err, ps1) \<Rightarrow> (Some err, warn e (ShardError p err) ps1)
      | (None, ps1) \<Rightarrow> processShards e newCounterFn paths ps1)"

section \<open>The report\<close>

text \<open>
  The three nested loops over the index (lines 146 to 166), as one loop over its
  entries in the order of the visit. The accumulator is the tabwriter's buffer and the
  three totals \<open>c2Cardinality\<close>, \<open>seriesTotal\<close> and \<open>fieldsTotal\<close>, all \<open>uint64\<close>.
\<close>

fun reportRows ::
  "('h, 'z) env_scheme \<Rightarrow> 'h fieldsAndSeries list \<Rightarrow> (string \<times> string \<times> string \<times> nat) list
     \<Rightarrow> line list \<times> 64 word \<times> 64 word \<times> 64 word
     \<Rightarrow> string option \<times> line list \<times> 64 word \<times> 64 word \<times> 64 word" where
  "reportRows e h [] acc = (None, acc)"
| "reportRows e h ((d, r, m, measure') # rest) (tw, c2Cardinality, seriesTotal, fieldsTotal) =
     (let seriesN = Counter_Count e (series (h ! measure'));
          fieldsN = Counter_Count e (fields_counter (h ! measure'))
      in case Fprint_tw e (Row d r m seriesN fieldsN (seriesN * fieldsN)) tw of
           (Some err, tw1) \<Rightarrow> (Some err, tw1, c2Cardinality, seriesTotal, fieldsTotal)
         | (None, tw1) \<Rightarrow>
             reportRows e h rest
               (tw1, c2Cardinality + seriesN * fieldsN, seriesTotal + seriesN, fieldsTotal + fieldsN))"

text \<open>
  Lines 134 to 174. The tabwriter holds the lines until \<open>Flush\<close>; the result is the
  error and what reached standard output.
\<close>

definition report :: "('h, 'z) env_scheme \<Rightarrow> string \<Rightarrow> 'h store \<Rightarrow> string option \<times> line list" where
  "report e estTitle st =
     (case Fprint_tw e Header [] of
        (Some err, tw) \<Rightarrow> (Some err, [])
      | (None, tw) \<Rightarrow>
     (case Fprint_tw e Dashes tw of
        (Some err, tw1) \<Rightarrow> (Some err, [])
      | (None, tw1) \<Rightarrow>
     (case reportRows e (heap st) (rangeTriples e (dbMap st)) (tw1, 0, 0, 0) of
        (Some err, acc) \<Rightarrow> (Some err, [])
      | (None, tw2, c2Cardinality, seriesTotal, fieldsTotal) \<Rightarrow>
     (case Fprint_tw e Dashes tw2 of
        (Some err, tw3) \<Rightarrow> (Some err, [])
      | (None, tw3) \<Rightarrow>
     (case Fprint_tw e (Total estTitle seriesTotal fieldsTotal c2Cardinality) tw3 of
        (Some err, tw4) \<Rightarrow> (Some err, [])
      | (None, tw4) \<Rightarrow>
     (case flushFail e tw4 of
        Some err \<Rightarrow> (Some err, [])
      | None \<Rightarrow> (None, tw4)))))))"

section \<open>The command\<close>

record Command =
  dbPath :: string
  shardPaths :: "(64 word \<times> string) list"
  exact :: bool
  concurrency :: int

text \<open>
  The values of the three flags once \<open>fs.Parse\<close> has returned, defaults included. The
  flag set is made with \<open>flag.ExitOnError\<close>, so a failing parse ends the process and
  never returns to \<open>Run\<close>.
\<close>

record flags =
  flag_db_path :: string
  flag_c :: int
  flag_exact :: bool

record 'h outcome =
  command :: Command
  index :: "'h store"
  stderr_out :: "diag list"
  stdout_out :: "line list"

definition NewCommand :: "('h, 'z) env_scheme \<Rightarrow> Command" where
  "NewCommand e = \<lparr>dbPath = [], shardPaths = [], exact = False, concurrency = gomaxprocs e\<rparr>"

definition Run :: "('h, 'z) env_scheme \<Rightarrow> Command \<Rightarrow> flags \<Rightarrow> string option \<times> 'h outcome" where
  "Run e cmd0 fl =
     (let cmd = cmd0\<lparr>dbPath := flag_db_path fl, concurrency := flag_c fl, exact := flag_exact fl\<rparr>;
          dbMap0 = \<lparr>dbMap = [], heap = []\<rparr>
      in if dbPath cmd = [] then
           (Some ''path to databaseRetentionPolicies must be provided'',
            \<lparr>command = cmd, index = dbMap0, stderr_out = [], stdout_out = []\<rparr>)
         else
           (case Walk (discover e) (dbPath cmd) (fsys e (dbPath cmd)) (shardPaths cmd) of
              (Some err, sp) \<Rightarrow>
                (Some err,
                 \<lparr>command = cmd\<lparr>shardPaths := sp\<rparr>, index = dbMap0, stderr_out = [], stdout_out = []\<rparr>)
            | (None, sp) \<Rightarrow>
                if length sp = 0 then
                  (case Fprintf_Stderr e (NoShards (dbPath cmd)) [] of
                     (err, out) \<Rightarrow>
                       (err,
                        \<lparr>command = cmd\<lparr>shardPaths := sp\<rparr>, index = dbMap0, stderr_out = out,
                         stdout_out = []\<rparr>))
                else
                  (let estTitle = (if exact cmd then [] else '' (estimated)'');
                       newCounterFn = (if exact cmd then NewExactCounter else NewHLLCounter e)
                   in case processShards e newCounterFn (map snd (rangeShardPaths e sp))
                             \<lparr>store = dbMap0, stderr = []\<rparr> of
                        (Some err, ps) \<Rightarrow>
                          (Some err,
                           \<lparr>command = cmd\<lparr>shardPaths := sp\<rparr>, index = store ps,
                            stderr_out = stderr ps, stdout_out = []\<rparr>)
                      | (None, ps) \<Rightarrow>
                          (case report e estTitle (store ps) of
                             (err, out) \<Rightarrow>
                               (err,
                                \<lparr>command = cmd\<lparr>shardPaths := sp\<rparr>, index = store ps,
                                 stderr_out = stderr ps, stdout_out = out\<rparr>)))))"

section \<open>A concrete data directory\<close>

text \<open>
  Modelled from the spec: the measurement name of \<open>models.ParseKey\<close>, which is not among
  the sources. A series key is \<open>measurement[,tag=value]*\<close>; for a key without escaped
  commas the measurement is what precedes the first comma.
\<close>

definition measurementName :: "string \<Rightarrow> string" where
  "measurementName seriesKey = takeWhile (\<lambda>ch. ch \<noteq> CHR '','') seriesKey"

text \<open>
  Two shards, \<open>1\<close> and \<open>2\<close>, of retention policy \<open>autogen\<close> of database \<open>db0\<close> under
  the root \<open>data\<close>, each with one TSM file, whose keys are the two parameters. No write
  fails, and every \<open>range\<close> visits the entries in the order of their insertion. The
  sketch is a dummy: the scenario is run with exact counters.
\<close>

definition scenarioTree :: node where
  "scenarioTree =
     Dir ''data'' None
       [Dir ''db0'' None
          [Dir ''autogen'' None
             [Dir ''1'' None [File ''000000001-000000001.tsm''],
              Dir ''2'' None [File ''000000001-000000001.tsm'']]]]"

definition scenario :: "string list \<Rightarrow> string list \<Rightarrow> unit env" where
  "scenario keys1 keys2 =
     \<lparr>gomaxprocs = 8,
      seriesFileDirectory = ''_series'',
      fsys = (\<lambda>p. scenarioTree),
      shardFiles = (\<lambda>p.
        if p = ''data/db0/autogen/1''
        then Inr [(''db0'', ''autogen'', ''1'', ''data/db0/autogen/1/000000001-000000001.tsm'')]
        else if p = ''data/db0/autogen/2''
        then Inr [(''db0'', ''autogen'', ''2'', ''data/db0/autogen/2/000000001-000000001.tsm'')]
        else Inr []),
      openTSM = (\<lambda>p.
        if p = ''data/db0/autogen/1/000000001-000000001.tsm'' then Reader keys1 None
        else if p = ''data/db0/autogen/2/000000001-000000001.tsm'' then Reader keys2 None
        else OpenFails ''no such file or directory''),
      parseKey = measurementName,
      hllNew = (),
      hllAdd = (\<lambda>item h. h),
      hllCount = (\<lambda>h. 0),
      stderrFail = (\<lambda>out d. None),
      twFail = (\<lambda>tw l. None),
      flushFail = (\<lambda>tw. None),
      rangeShardPaths = (\<lambda>m. m),
      rangeDatabases = (\<lambda>m. m),
      rangeRetentionPolicies = (\<lambda>m. m),
      rangeMeasurements = (\<lambda>m. m)\<rparr>"

definition scenarioFlags :: flags where
  "scenarioFlags = \<lparr>flag_db_path = ''data'', flag_c = 8, flag_exact = True\<rparr>"

text \<open>
  A sequence of bucket lookups, each by \<open>initFieldsAndSeries\<close>, keeping the index.
\<close>

definition lookups :: "'h counter \<Rightarrow> 'h store \<Rightarrow> (string \<times> string \<times> string) list \<Rightarrow> 'h store" where
  "lookups fn st ts = foldl (\<lambda>s (db, rp, ms). snd (initFieldsAndSeries s db rp ms fn)) st ts"

text \<open>The files \<open>Run\<close> gets a reader for.\<close>

definition readable :: "('h, 'z) env_scheme \<Rightarrow> string \<times> string \<times> string \<times> string \<Rightarrow> bool" where
  "readable e loc =
     (case loc of
        (db, rp, id', path) \<Rightarrow>
          (case openTSM e path of OpenFails err \<Rightarrow> False | ReaderFails err \<Rightarrow> False
           | Reader keys cerr \<Rightarrow> True))"

text \<open>
  A shard with three files: the first is not a TSM file, the second is read and
  closed, the third is read and then fails to close.
\<close>

definition brokenShard :: "unit env" where
  "brokenShard =
     (scenario [] [])
       \<lparr>shardFiles := (\<lambda>p.
          if p = ''data/db0/autogen/1''
          then Inr [(''db0'', ''autogen'', ''1'', ''data/db0/autogen/1/000000001-000000001.tsm''),
                    (''db0'', ''autogen'', ''1'', ''data/db0/autogen/1/000000002-000000001.tsm''),
                    (''db0'', ''autogen'', ''1'', ''data/db0/autogen/1/000000003-000000001.tsm'')]
          else Inr []),
        openTSM := (\<lambda>p.
          if p = ''data/db0/autogen/1/000000001-000000001.tsm''
          then ReaderFails ''init: read footer: EOF''
          else if p = ''data/db0/autogen/1/000000002-000000001.tsm''
          then Reader [''cpu,host=a#!~#value'', ''mem,host=a#!~#used''] None
          else if p = ''data/db0/autogen/1/000000003-000000001.tsm''
          then Reader [''cpu,host=b#!~#value''] (Some ''file already closed'')
          else OpenFails ''no such file or directory'')\<rparr>"

text \<open>The series count, the field count and the report row of an entry of the index.\<close>

definition seriesN :: "('h, 'z) env_scheme \<Rightarrow> 'h fieldsAndSeries list \<Rightarrow> string \<times> string \<times> string \<times> nat \<Rightarrow> 64 word" where
  "seriesN e h t = (case t of (d, r, m, a) \<Rightarrow> Counter_Count e (series (h ! a)))"

definition fieldsN :: "('h, 'z) env_scheme \<Rightarrow> 'h fieldsAndSeries list \<Rightarrow> string \<times> string \<times> string \<times> nat \<Rightarrow> 64 word" where
  "fieldsN e h t = (case t of (d, r, m, a) \<Rightarrow> Counter_Count e (fields_counter (h ! a)))"

definition rowOf :: "('h, 'z) env_scheme \<Rightarrow> 'h fieldsAndSeries list \<Rightarrow> string \<times> string \<times> string \<times> nat \<Rightarrow> line" where
  "rowOf e h t = (case t of (d, r, m, a) \<Rightarrow> Row d r m (seriesN e h t) (fieldsN e h t) (seriesN e h t * fieldsN e h t))"

text \<open>The data directory without any shard.\<close>

definition noShards :: "unit env" where
  "noShards = (scenario [] [])\<lparr>fsys := (\<lambda>p. Dir ''data'' None [File ''meta.db'', Dir ''db0'' None []])\<rparr>"

text \<open>What the report prints when no write fails.\<close>

definition reportLines :: "('h, 'z) env_scheme \<Rightarrow> string \<Rightarrow> 'h store \<Rightarrow> line list" where
  "reportLines e estTitle st =
     (let ts = rangeTriples e (dbMap st); h = heap st
      in [Header, Dashes] @ map (rowOf e h) ts @
         [Dashes,
          Total estTitle (sum_list (map (seriesN e h) ts)) (sum_list (map (fieldsN e h) ts))
            (sum_list (map (\<lambda>t. seriesN e h t * fieldsN e h t) ts))])"





text \<open>The entries of one retention policy and of one database, as the report lists them.\<close>

definition rp_triples ::
  "string \<Rightarrow> string \<Rightarrow> measurementFieldsAndSeries \<Rightarrow> (string \<times> string \<times> string \<times> nat) list" where
  "rp_triples d r rp = map (\<lambda>(m, a). (d, r, m, a)) rp"

definition db_triples ::
  "string \<Rightarrow> retentionPolicyMeasurements \<Rightarrow> (string \<times> string \<times> string \<times> nat) list" where
  "db_triples d db = concat (map (\<lambda>(r, rp). rp_triples d r rp) db)"

text \<open>
  What holds of every index the code builds: a key occurs once in each map, every
  address is in the heap, and no two triples share a bucket.
\<close>

definition wf_db :: "retentionPolicyMeasurements \<Rightarrow> bool" where
  "wf_db db \<longleftrightarrow> distinct (map fst db) \<and> (\<forall>(r, rp) \<in> set db. distinct (map fst rp))"

definition wf_index :: "databaseRetentionPolicies \<Rightarrow> bool" where
  "wf_index toto \<longleftrightarrow> distinct (map fst toto) \<and> (\<forall>(d, db) \<in> set toto. wf_db db)"

definition wf_store :: "'h store \<Rightarrow> bool" where
  "wf_store st \<longleftrightarrow>
     wf_index (dbMap st) \<and>
     (\<forall>(d, r, m, a) \<in> set (triples (dbMap st)). a < length (heap st)) \<and>
     (\<forall>(d, r, m, a) \<in> set (triples (dbMap st)). \<forall>(d', r', m', a') \<in> set (triples (dbMap st)).
        a = a' \<longrightarrow> d = d' \<and> r = r' \<and> m = m')"

text \<open>
  The items an exact counter holds (a sketch holds none), and the stores all of whose
  counters are exact, as in a run with \<open>-exact\<close>.
\<close>

fun items :: "'h counter \<Rightarrow> string set" where
  "items (ExactCounter s) = s"
| "items (HLLCounter h) = {}"

fun is_exact :: "'h counter \<Rightarrow> bool" where
  "is_exact (ExactCounter s) = True"
| "is_exact (HLLCounter h) = False"

definition all_exact :: "'h store \<Rightarrow> bool" where
  "all_exact st \<longleftrightarrow> (\<forall>b \<in> set (heap st). is_exact (series b) \<and> is_exact (fields_counter b))"

text \<open>
  A raw key is counted in a store when the bucket of its database, retention policy
  and measurement has the key among its series items and the field name among its
  field items.
\<close>

definition counted :: "('h, 'z) env_scheme \<Rightarrow> 'h store \<Rightarrow> string \<Rightarrow> string \<Rightarrow> string \<Rightarrow> bool" where
  "counted e st db rp key =
     (case bytes_Cut key keyFieldSeparator of
        (seriesKey, field, found) \<Rightarrow>
          (case bucket st db rp (parseKey e seriesKey) of
             None \<Rightarrow> False
           | Some b \<Rightarrow> key \<in> items (series b) \<and> field \<in> items (fields_counter b)))"

text \<open>The keys a file contributes: those of its index when a reader is made, else none.\<close>

definition fileKeys :: "('h, 'z) env_scheme \<Rightarrow> string \<Rightarrow> string list" where
  "fileKeys e path =
     (case openTSM e path of
        OpenFails err \<Rightarrow> []
      | ReaderFails err \<Rightarrow> []
      | Reader keys cerr \<Rightarrow> keys)"

definition countFile ::
  "('h, 'z) env_scheme \<Rightarrow> 'h counter \<Rightarrow> 'h store \<Rightarrow> string \<times> string \<times> string \<times> string \<Rightarrow> 'h store" where
  "countFile e fn st loc =
     (case loc of (db, rp, id', path) \<Rightarrow> foldl (processKey e fn db rp) st (fileKeys e path))"



text \<open>
  What a store holds, without the addresses: the bucket of each triple. And what
  processing a key of a file of database \<open>db\<close> and retention policy \<open>rp\<close> does to it.
\<close>

definition content :: "'h store \<Rightarrow> string \<times> string \<times> string \<Rightarrow> 'h fieldsAndSeries option" where
  "content st = (\<lambda>(d, r, m). bucket st d r m)"

definition countKey ::
  "('h, 'z) env_scheme \<Rightarrow> 'h counter \<Rightarrow> string \<times> string \<times> string
     \<Rightarrow> (string \<times> string \<times> string \<Rightarrow> 'h fieldsAndSeries option)
     \<Rightarrow> (string \<times> string \<times> string \<Rightarrow> 'h fieldsAndSeries option)" where
  "countKey e fn ev c =
     (case ev of
        (db, rp, key) \<Rightarrow>
          (case bytes_Cut key keyFieldSeparator of
             (seriesKey, field, found) \<Rightarrow>
               c((db, rp, parseKey e seriesKey) \<mapsto>
                   \<lparr>fields_counter =
                      Counter_Add e field
                        (case c (db, rp, parseKey e seriesKey) of
                           None \<Rightarrow> fn | Some b \<Rightarrow> fields_counter b),
                    series =
                      Counter_Add e key
                        (case c (db, rp, parseKey e seriesKey) of
                           None \<Rightarrow> fn | Some b \<Rightarrow> series b)\<rparr>)))"

text \<open>
  The keys that the walks over the given shard paths come by, each with the database
  and the retention policy of its file, in the order in which they are processed.
\<close>

definition shardLocs :: "('h, 'z) env_scheme \<Rightarrow> string \<Rightarrow> (string \<times> string \<times> string \<times> string) list" where
  "shardLocs e p = (case shardFiles e p of Inl err \<Rightarrow> [] | Inr locs \<Rightarrow> locs)"

definition locKeys ::
  "('h, 'z) env_scheme \<Rightarrow> string \<times> string \<times> string \<times> string \<Rightarrow> (string \<times> string \<times> string) list" where
  "locKeys e loc = (case loc of (db, rp, id', path) \<Rightarrow> map (\<lambda>key. (db, rp, key)) (fileKeys e path))"

definition shardKeys :: "('h, 'z) env_scheme \<Rightarrow> string list \<Rightarrow> (string \<times> string \<times> string) list" where
  "shardKeys e paths = concat (map (\<lambda>p. concat (map (locKeys e) (shardLocs e p))) paths)"

text \<open>The entries of the index with their buckets, and the report row of one.\<close>

definition indexEntries :: "'h store \<Rightarrow> ((string \<times> string \<times> string) \<times> 'h fieldsAndSeries) list" where
  "indexEntries st = map (\<lambda>(d, r, m, a). ((d, r, m), heap st ! a)) (triples (dbMap st))"

definition entryRow :: "('h, 'z) env_scheme \<Rightarrow> (string \<times> string \<times> string) \<times> 'h fieldsAndSeries \<Rightarrow> line" where
  "entryRow e x =
     (case x of
        ((d, r, m), b) \<Rightarrow>
          Row d r m (Counter_Count e (series b)) (Counter_Count e (fields_counter b))
            (Counter_Count e (series b) * Counter_Count e (fields_counter b)))"

text \<open>
  Two environments with the same inputs: they differ at most in the orders of
  \<open>range\<close>. A sketch whose additions commute, as those of HyperLogLog do. A data
  directory whose shard walks all succeed, and a table all writes to which succeed.
\<close>

definition same_inputs :: "('h, 'z) env_scheme \<Rightarrow> ('h, 'z) env_scheme \<Rightarrow> bool" where
  "same_inputs e1 e2 \<longleftrightarrow>
     gomaxprocs e1 = gomaxprocs e2 \<and> seriesFileDirectory e1 = seriesFileDirectory e2 \<and>
     fsys e1 = fsys e2 \<and> shardFiles e1 = shardFiles e2 \<and> openTSM e1 = openTSM e2 \<and>
     parseKey e1 = parseKey e2 \<and> hllNew e1 = hllNew e2 \<and> hllAdd e1 = hllAdd e2 \<and>
     hllCount e1 = hllCount e2 \<and> stderrFail e1 = stderrFail e2 \<and> twFail e1 = twFail e2 \<and>
     flushFail e1 = flushFail e2"

definition adds_commute :: "('h, 'z) env_scheme \<Rightarrow> bool" where
  "adds_commute e \<longleftrightarrow> (\<forall>x y h. hllAdd e x (hllAdd e y h) = hllAdd e y (hllAdd e x h))"

definition walks_succeed :: "('h, 'z) env_scheme \<Rightarrow> string list \<Rightarrow> bool" where
  "walks_succeed e paths \<longleftrightarrow> (\<forall>p \<in> set paths. \<exists>locs. shardFiles e p = Inr locs)"

definition table_writes_succeed :: "('h, 'z) env_scheme \<Rightarrow> bool" where
  "table_writes_succeed e \<longleftrightarrow> (\<forall>tw l. twFail e tw l = None) \<and> (\<forall>tw. flushFail e tw = None)"

text \<open>
  The scenario with the measurements of a retention policy visited in the reverse
  order of their insertion.
\<close>

definition reversedScenario :: "string list \<Rightarrow> string list \<Rightarrow> unit env" where
  "reversedScenario keys1 keys2 = (scenario keys1 keys2)\<lparr>rangeMeasurements := rev\<rparr>"

section \<open>Properties of key decomposition\<close>

lemma bytes_Index_None: "bytes_Index s sep = None \<longleftrightarrow> \<not> sublist sep s"
  by (induction s) (auto simp: sublist_Cons_right)

lemma prefix_take_eq: "prefix sep s \<Longrightarrow> take (length sep) s = sep"
  by (auto simp: prefix_def)

lemma bytes_Index_Some:
  "bytes_Index s sep = Some i \<Longrightarrow>
     i + length sep \<le> length s \<and> take (length sep) (drop i s) = sep \<and>
     (\<forall>j < i. \<not> prefix sep (drop j s))"
proof (induction s arbitrary: i)
  case Nil
  then show ?case by (auto split: if_splits)
next
  case (Cons c cs)
  show ?case
  proof (cases "prefix sep (c # cs)")
    case True
    with Cons.prems have "i = 0" by simp
    with True show ?thesis
      using prefix_length_le[OF True] prefix_take_eq[OF True] by simp
  next
    case False
    with Cons.prems obtain k where k: "bytes_Index cs sep = Some k" "i = Suc k"
      by auto
    from Cons.IH[OF k(1)] False k(2) show ?thesis
      by (auto simp: less_Suc_eq_0_disj)
  qed
qed

lemma bytes_Cut_first:
  assumes "bytes_Cut key sep = (before, after, True)"
  shows "key = before @ sep @ after \<and> (\<forall>p q. key = p @ sep @ q \<longrightarrow> length before \<le> length p)"
proof -
  from assms obtain i where i: "bytes_Index key sep = Some i"
    and b: "before = take i key" and a: "after = drop (i + length sep) key"
    by (auto simp: bytes_Cut_def split: option.splits)
  note S = bytes_Index_Some[OF i]
  have "key = take i key @ drop i key" by simp
  also have "drop i key = take (length sep) (drop i key) @ drop (length sep) (drop i key)"
    by (rule append_take_drop_id [symmetric])
  finally have eq: "key = before @ sep @ after"
    using S b a by (simp add: add.commute)
  have "length before \<le> length p" if "key = p @ sep @ q" for p q
  proof (rule ccontr)
    assume "\<not> length before \<le> length p"
    with b S have "length p < i" by simp
    with S have "\<not> prefix sep (drop (length p) key)" by blast
    with that show False by simp
  qed
  with eq show ?thesis by blast
qed

text \<open>
  C8. A key without the separator \<open>#!~#\<close> is cut into the whole key and an empty field
  name, with no error; a key with the separator is cut at its first occurrence: the
  two parts and the separator make up the key, and no occurrence starts earlier.
\<close>

theorem key_decomposition:
  "(\<not> sublist keyFieldSeparator key \<longrightarrow> bytes_Cut key keyFieldSeparator = (key, [], False)) \<and>
   (sublist keyFieldSeparator key \<longrightarrow>
      (\<exists>before after. bytes_Cut key keyFieldSeparator = (before, after, True) \<and>
         key = before @ keyFieldSeparator @ after \<and>
         (\<forall>p q. key = p @ keyFieldSeparator @ q \<longrightarrow> length before \<le> length p)))"
proof (intro conjI impI)
  assume "\<not> sublist keyFieldSeparator key"
  then have "bytes_Index key keyFieldSeparator = None" by (simp add: bytes_Index_None)
  then show "bytes_Cut key keyFieldSeparator = (key, [], False)" by (simp add: bytes_Cut_def)
next
  assume "sublist keyFieldSeparator key"
  then have "bytes_Index key keyFieldSeparator \<noteq> None" by (simp add: bytes_Index_None)
  then obtain before after where c: "bytes_Cut key keyFieldSeparator = (before, after, True)"
    by (auto simp: bytes_Cut_def)
  from bytes_Cut_first[OF c] c
  show "\<exists>before after. bytes_Cut key keyFieldSeparator = (before, after, True) \<and>
         key = before @ keyFieldSeparator @ after \<and>
         (\<forall>p q. key = p @ keyFieldSeparator @ q \<longrightarrow> length before \<le> length p)"
    by blast
qed

theorem key_decomposition_witness:
  "\<not> sublist keyFieldSeparator ''cpu,host=a'' \<and>
   bytes_Cut ''cpu,host=a'' keyFieldSeparator = (''cpu,host=a'', [], False) \<and>
   sublist keyFieldSeparator ''m#!~#f#!~#g'' \<and>
   bytes_Cut ''m#!~#f#!~#g'' keyFieldSeparator = (''m'', ''f#!~#g'', True)"
proof -
  have n: "\<not> sublist keyFieldSeparator ''cpu,host=a''"
    by (simp add: keyFieldSeparator_def sublist_Cons_right)
  have y: "sublist keyFieldSeparator ''m#!~#f#!~#g''"
    by (simp add: keyFieldSeparator_def sublist_Cons_right)
  from key_decomposition[of "''cpu,host=a''"] n
  have 1: "bytes_Cut ''cpu,host=a'' keyFieldSeparator = (''cpu,host=a'', [], False)" by blast
  from key_decomposition[of "''m#!~#f#!~#g''"] y
  obtain before after where c: "bytes_Cut ''m#!~#f#!~#g'' keyFieldSeparator = (before, after, True)"
    by blast
  then have 2: "bytes_Cut ''m#!~#f#!~#g'' keyFieldSeparator = (''m'', ''f#!~#g'', True)"
    by (simp add: bytes_Cut_def keyFieldSeparator_def)
  from n 1 y 2 show ?thesis by blast
qed

section \<open>Properties of the index\<close>

lemma init_found:
  "lookupAddr (dbMap st) db rp ms = Some a \<Longrightarrow> initFieldsAndSeries st db rp ms fn = (a, st)"
  by (auto simp: lookupAddr_def initFieldsAndSeries_def split: option.splits)

lemma init_missing:
  assumes "lookupAddr (dbMap st) db rp ms = None"
  shows "fst (initFieldsAndSeries st db rp ms fn) = length (heap st)"
    and "heap (snd (initFieldsAndSeries st db rp ms fn)) = heap st @ [\<lparr>fields_counter = fn, series = fn\<rparr>]"
    and "lookupAddr (dbMap (snd (initFieldsAndSeries st db rp ms fn))) d r m =
           (if (d, r, m) = (db, rp, ms) then Some (length (heap st)) else lookupAddr (dbMap st) d r m)"
  using assms
  by (auto simp: lookupAddr_def initFieldsAndSeries_def Let_def update_conv' split: option.splits)

lemma init_other:
  "d \<noteq> db \<or> r \<noteq> rp \<or> m \<noteq> ms \<Longrightarrow>
     lookupAddr (dbMap (snd (initFieldsAndSeries st db rp ms fn))) d r m = lookupAddr (dbMap st) d r m"
proof (cases "lookupAddr (dbMap st) db rp ms")
  case None
  assume "d \<noteq> db \<or> r \<noteq> rp \<or> m \<noteq> ms"
  with init_missing(3)[OF None, of fn d r m] show ?thesis by auto
next
  case (Some b)
  with init_found[OF Some, of fn] show ?thesis by simp
qed

lemma init_keeps:
  assumes a: "lookupAddr (dbMap st) d r m = Some a"
  shows "lookupAddr (dbMap (snd (initFieldsAndSeries st db rp ms fn))) d r m = Some a"
proof (cases "d = db \<and> r = rp \<and> m = ms")
  case True
  with a init_found[of st db rp ms a fn] show ?thesis by simp
next
  case False
  then have "d \<noteq> db \<or> r \<noteq> rp \<or> m \<noteq> ms" by blast
  from init_other[OF this, of st fn] a show ?thesis by simp
qed

lemma init_heap_prefix:
  "take (length (heap st)) (heap (snd (initFieldsAndSeries st db rp ms fn))) = heap st"
proof (cases "lookupAddr (dbMap st) db rp ms")
  case None
  from init_missing(2)[OF None, of fn] show ?thesis by simp
next
  case (Some b)
  with init_found[OF Some, of fn] show ?thesis by simp
qed

lemma init_heap_length:
  "length (heap st) \<le> length (heap (snd (initFieldsAndSeries st db rp ms fn)))"
  by (metis init_heap_prefix length_take min.cobounded1 min.commute)

lemma lookups_keeps:
  "lookupAddr (dbMap st) d r m = Some a \<Longrightarrow> lookupAddr (dbMap (lookups fn st ts)) d r m = Some a"
  by (induction ts arbitrary: st) (auto simp: lookups_def init_keeps)

lemma lookups_other:
  "(d, r, m) \<notin> set ts \<Longrightarrow> lookupAddr (dbMap (lookups fn st ts)) d r m = lookupAddr (dbMap st) d r m"
proof (induction ts arbitrary: st)
  case Nil
  show ?case by (simp add: lookups_def)
next
  case (Cons t ts)
  obtain db rp ms where t: "t = (db, rp, ms)" by (cases t) auto
  let ?s1 = "snd (initFieldsAndSeries st db rp ms fn)"
  have l: "lookups fn st (t # ts) = lookups fn ?s1 ts" by (simp add: lookups_def t)
  from Cons.prems t have ne: "d \<noteq> db \<or> r \<noteq> rp \<or> m \<noteq> ms" and nin: "(d, r, m) \<notin> set ts"
    by auto
  from Cons.IH[OF nin, of ?s1] init_other[OF ne, of st fn] show ?case
    by (simp only: l)
qed

lemma lookups_heap_prefix:
  "take (length (heap st)) (heap (lookups fn st ts)) = heap st"
proof (induction ts arbitrary: st)
  case Nil
  show ?case by (simp add: lookups_def)
next
  case (Cons t ts)
  obtain db rp ms where t: "t = (db, rp, ms)" by (cases t) auto
  let ?s1 = "snd (initFieldsAndSeries st db rp ms fn)"
  have l: "lookups fn st (t # ts) = lookups fn ?s1 ts" by (simp add: lookups_def t)
  have "take (length (heap st)) (heap (lookups fn ?s1 ts)) =
        take (length (heap st)) (take (length (heap ?s1)) (heap (lookups fn ?s1 ts)))"
    using init_heap_length[of st db rp ms fn] by (simp add: min_def)
  also have "\<dots> = take (length (heap st)) (heap ?s1)" by (simp only: Cons.IH)
  also have "\<dots> = heap st" by (rule init_heap_prefix)
  finally show ?case by (simp only: l)
qed

lemma series_Add_simps [simp]:
  "dbMap (series_Add e fs item st) = dbMap st"
  "length (heap (series_Add e fs item st)) = length (heap st)"
  by (simp_all add: series_Add_def)

lemma fields_Add_simps [simp]:
  "dbMap (fields_Add e fs item st) = dbMap st"
  "length (heap (fields_Add e fs item st)) = length (heap st)"
  by (simp_all add: fields_Add_def)

lemma processKey_dbMap:
  "dbMap (processKey e fn db rp st key) =
     dbMap (snd (initFieldsAndSeries st db rp (parseKey e (fst (bytes_Cut key keyFieldSeparator))) fn))"
  by (simp add: processKey_def split: prod.splits)

lemma processKey_heap_length:
  "length (heap (processKey e fn db rp st key)) =
     length (heap (snd (initFieldsAndSeries st db rp (parseKey e (fst (bytes_Cut key keyFieldSeparator))) fn)))"
  by (simp add: processKey_def split: prod.splits)

lemma processKeys_keeps:
  "lookupAddr (dbMap st) d r m = Some a \<Longrightarrow>
     lookupAddr (dbMap (foldl (processKey e fn db rp) st keys)) d r m = Some a"
  by (induction keys arbitrary: st) (auto simp: processKey_dbMap init_keeps)

lemma processKeys_heap_length:
  "length (heap st) \<le> length (heap (foldl (processKey e fn db rp) st keys))"
proof (induction keys arbitrary: st)
  case Nil
  show ?case by simp
next
  case (Cons k ks)
  have "length (heap st) \<le> length (heap (processKey e fn db rp st k))"
    by (simp add: processKey_heap_length init_heap_length)
  also have "\<dots> \<le> length (heap (foldl (processKey e fn db rp) (processKey e fn db rp st k) ks))"
    by (rule Cons.IH)
  finally show ?case by simp
qed

text \<open>
  C6. A triple that was never looked up has no entry in an index that started empty.
  The first lookup of a triple returns a new address, adds exactly one bucket there,
  with both counters as the factory makes them, and changes the entry of no other
  triple. Every later lookup returns the same address and leaves the index as it is;
  further lookups and further keys only add buckets behind the existing ones, so the
  address of the triple stays what it was.
\<close>

theorem lazy_bucket_creation:
  "((db, rp, ms) \<notin> set ts \<longrightarrow>
      lookupAddr (dbMap (lookups fn \<lparr>dbMap = [], heap = []\<rparr> ts)) db rp ms = None) \<and>
   (lookupAddr (dbMap st) db rp ms = None \<longrightarrow>
      (\<exists>st1. initFieldsAndSeries st db rp ms fn = (length (heap st), st1) \<and>
         heap st1 = heap st @ [\<lparr>fields_counter = fn, series = fn\<rparr>] \<and>
         lookupAddr (dbMap st1) db rp ms = Some (length (heap st)) \<and>
         (\<forall>d r m. (d, r, m) \<noteq> (db, rp, ms) \<longrightarrow>
            lookupAddr (dbMap st1) d r m = lookupAddr (dbMap st) d r m))) \<and>
   (lookupAddr (dbMap st) db rp ms = Some a \<longrightarrow>
      initFieldsAndSeries st db rp ms fn = (a, st) \<and>
      lookupAddr (dbMap (lookups fn st us)) db rp ms = Some a \<and>
      take (length (heap st)) (heap (lookups fn st us)) = heap st \<and>
      lookupAddr (dbMap (foldl (processKey e fn d' r') st keys)) db rp ms = Some a \<and>
      length (heap st) \<le> length (heap (foldl (processKey e fn d' r') st keys)))"
proof (intro conjI impI)
  assume "(db, rp, ms) \<notin> set ts"
  then have "lookupAddr (dbMap (lookups fn \<lparr>dbMap = [], heap = []\<rparr> ts)) db rp ms =
             lookupAddr (dbMap \<lparr>dbMap = [], heap = ([] :: 'a fieldsAndSeries list)\<rparr>) db rp ms"
    by (rule lookups_other)
  then show "lookupAddr (dbMap (lookups fn \<lparr>dbMap = [], heap = []\<rparr> ts)) db rp ms = None"
    by (simp add: lookupAddr_def)
next
  assume n: "lookupAddr (dbMap st) db rp ms = None"
  let ?st1 = "snd (initFieldsAndSeries st db rp ms fn)"
  have "initFieldsAndSeries st db rp ms fn = (length (heap st), ?st1)"
    using init_missing(1)[OF n, of fn] by (simp add: prod_eq_iff)
  moreover have "heap ?st1 = heap st @ [\<lparr>fields_counter = fn, series = fn\<rparr>]"
    by (rule init_missing(2)[OF n])
  moreover have "lookupAddr (dbMap ?st1) db rp ms = Some (length (heap st))"
    using init_missing(3)[OF n, of fn db rp ms] by simp
  moreover have "\<forall>d r m. (d, r, m) \<noteq> (db, rp, ms) \<longrightarrow>
      lookupAddr (dbMap ?st1) d r m = lookupAddr (dbMap st) d r m"
    using init_other[of _ db _ rp _ ms st fn] by simp
  ultimately show "\<exists>st1. initFieldsAndSeries st db rp ms fn = (length (heap st), st1) \<and>
         heap st1 = heap st @ [\<lparr>fields_counter = fn, series = fn\<rparr>] \<and>
         lookupAddr (dbMap st1) db rp ms = Some (length (heap st)) \<and>
         (\<forall>d r m. (d, r, m) \<noteq> (db, rp, ms) \<longrightarrow>
            lookupAddr (dbMap st1) d r m = lookupAddr (dbMap st) d r m)"
    by blast
next
  assume s: "lookupAddr (dbMap st) db rp ms = Some a"
  show "initFieldsAndSeries st db rp ms fn = (a, st)" by (rule init_found[OF s])
  show "lookupAddr (dbMap (lookups fn st us)) db rp ms = Some a" by (rule lookups_keeps[OF s])
  show "take (length (heap st)) (heap (lookups fn st us)) = heap st" by (rule lookups_heap_prefix)
  show "lookupAddr (dbMap (foldl (processKey e fn d' r') st keys)) db rp ms = Some a"
    by (rule processKeys_keeps[OF s])
  show "length (heap st) \<le> length (heap (foldl (processKey e fn d' r') st keys))"
    by (rule processKeys_heap_length)
qed

theorem lazy_bucket_creation_witness:
  "(''db0'', ''autogen'', ''mem'') \<notin> set [(''db0'', ''autogen'', ''cpu'')] \<and>
   lookupAddr (dbMap (lookups (NewExactCounter :: unit counter) \<lparr>dbMap = [], heap = []\<rparr>
       [(''db0'', ''autogen'', ''cpu'')])) ''db0'' ''autogen'' ''mem'' = None \<and>
   lookupAddr (dbMap \<lparr>dbMap = [], heap = ([] :: unit fieldsAndSeries list)\<rparr>) ''db0'' ''autogen'' ''mem'' = None \<and>
   initFieldsAndSeries \<lparr>dbMap = [], heap = []\<rparr> ''db0'' ''autogen'' ''mem'' (NewExactCounter :: unit counter) =
     (0, \<lparr>dbMap = [(''db0'', [(''autogen'', [(''mem'', 0)])])],
          heap = [\<lparr>fields_counter = NewExactCounter, series = NewExactCounter\<rparr>]\<rparr>) \<and>
   lookupAddr (dbMap \<lparr>dbMap = [(''db0'', [(''autogen'', [(''mem'', 0)])])],
          heap = [\<lparr>fields_counter = (NewExactCounter :: unit counter), series = NewExactCounter\<rparr>]\<rparr>)
      ''db0'' ''autogen'' ''mem'' = Some 0 \<and>
   initFieldsAndSeries \<lparr>dbMap = [(''db0'', [(''autogen'', [(''mem'', 0)])])],
          heap = [\<lparr>fields_counter = (NewExactCounter :: unit counter), series = NewExactCounter\<rparr>]\<rparr>
      ''db0'' ''autogen'' ''mem'' NewExactCounter =
     (0, \<lparr>dbMap = [(''db0'', [(''autogen'', [(''mem'', 0)])])],
          heap = [\<lparr>fields_counter = NewExactCounter, series = NewExactCounter\<rparr>]\<rparr>)"
  using lazy_bucket_creation[of "''db0''" "''autogen''" "''mem''" "[(''db0'', ''autogen'', ''cpu'')]"
      "NewExactCounter :: unit counter" "\<lparr>dbMap = [], heap = []\<rparr>" 0 "[]" "scenario [] []" "''db0''" "''autogen''" "[]"]
    lazy_bucket_creation[of "''db0''" "''autogen''" "''mem''" "[]"
      "NewExactCounter :: unit counter"
      "\<lparr>dbMap = [(''db0'', [(''autogen'', [(''mem'', 0)])])],
          heap = [\<lparr>fields_counter = NewExactCounter, series = NewExactCounter\<rparr>]\<rparr>" 0 "[]"
      "scenario [] []" "''db0''" "''autogen''" "[]"]
  by (simp add: lookupAddr_def initFieldsAndSeries_def)

section \<open>An invariant of the index\<close>

lemma set_update_distinct:
  assumes "distinct (map fst al)"
  shows "set (AList.update k v al) = insert (k, v) {x \<in> set al. fst x \<noteq> k}"
proof -
  have "distinct (map fst (AList.update k v al))" using assms by (rule distinct_update)
  then have "set (AList.update k v al) = {(k', v'). map_of (AList.update k v al) k' = Some v'}"
    by (rule set_map_of_compr)
  also have "\<dots> = {(k', v'). ((map_of al)(k \<mapsto> v)) k' = Some v'}"
    by (simp add: update_conv')
  also have "\<dots> = insert (k, v) {x \<in> {(k', v'). map_of al k' = Some v'}. fst x \<noteq> k}"
    by (auto split: if_splits)
  also have "{(k', v'). map_of al k' = Some v'} = set al"
    using set_map_of_compr[OF assms] by simp
  finally show ?thesis .
qed

lemma wf_db_update: "wf_db db \<Longrightarrow> distinct (map fst rp) \<Longrightarrow> wf_db (AList.update r rp db)"
  by (auto simp: wf_db_def distinct_update set_update_distinct)

lemma wf_index_update: "wf_index toto \<Longrightarrow> wf_db db \<Longrightarrow> wf_index (AList.update d db toto)"
  by (auto simp: wf_index_def distinct_update set_update_distinct)

lemma wf_index_lookup: "wf_index toto \<Longrightarrow> wf_db (case map_of toto d of Some x \<Rightarrow> x | None \<Rightarrow> [])"
  by (auto simp: wf_index_def wf_db_def split: option.splits dest!: map_of_SomeD)

lemma wf_db_lookup: "wf_db db \<Longrightarrow> distinct (map fst (case map_of db r of Some x \<Rightarrow> x | None \<Rightarrow> []))"
  by (auto simp: wf_db_def split: option.splits dest!: map_of_SomeD)

lemma wf_index_init:
  assumes "wf_index (dbMap st)"
  shows "wf_index (dbMap (snd (initFieldsAndSeries st db rp ms fn)))"
proof (cases "lookupAddr (dbMap st) db rp ms")
  case (Some a)
  with init_found[OF Some, of fn] assms show ?thesis by simp
next
  case None
  let ?rpMap = "case map_of (dbMap st) db of Some x \<Rightarrow> x | None \<Rightarrow> []"
  let ?mMap = "case map_of ?rpMap rp of Some x \<Rightarrow> x | None \<Rightarrow> []"
  have m: "map_of ?mMap ms = None"
    using None by (auto simp: lookupAddr_def split: option.splits)
  have 1: "wf_db ?rpMap" using assms by (rule wf_index_lookup)
  then have 2: "distinct (map fst ?mMap)" by (rule wf_db_lookup)
  then have 3: "distinct (map fst (AList.update ms (length (heap st)) ?mMap))"
    by (rule distinct_update)
  from wf_index_update[OF assms wf_db_update[OF 1 3]]
  show ?thesis by (simp add: initFieldsAndSeries_def Let_def m)
qed

lemma triples_Nil [simp]: "triples [] = []"
  by (simp add: triples_def)

lemma triples_Cons: "triples ((d, db) # toto) = db_triples d db @ triples toto"
  by (simp add: triples_def db_triples_def rp_triples_def)

lemma db_triples_Nil [simp]: "db_triples d [] = []"
  by (simp add: db_triples_def)

lemma db_triples_Cons: "db_triples d ((r, rp) # db) = rp_triples d r rp @ db_triples d db"
  by (simp add: db_triples_def)

lemma set_rp_triples:
  "(d, r, m, a) \<in> set (rp_triples d' r' rp) \<longleftrightarrow> d = d' \<and> r = r' \<and> (m, a) \<in> set rp"
  by (auto simp: rp_triples_def)

lemma set_db_triples:
  "(d, r, m, a) \<in> set (db_triples d' db) \<longleftrightarrow>
     d = d' \<and> (\<exists>rp. (r, rp) \<in> set db \<and> (m, a) \<in> set rp)"
  by (induction db) (auto simp: db_triples_Cons set_rp_triples)

lemma set_triples:
  "(d, r, m, a) \<in> set (triples toto) \<longleftrightarrow>
     (\<exists>db rp. (d, db) \<in> set toto \<and> (r, rp) \<in> set db \<and> (m, a) \<in> set rp)"
  by (induction toto) (auto simp: triples_Cons set_db_triples)

lemma distinct_rp_triples: "distinct (map fst rp) \<Longrightarrow> distinct (rp_triples d r rp)"
  by (induction rp) (auto simp: rp_triples_def)

lemma distinct_db_triples:
  "wf_db db \<Longrightarrow> distinct (db_triples d db)"
proof (induction db)
  case Nil
  show ?case by simp
next
  case (Cons x db)
  obtain r rp where x: "x = (r, rp)" by (cases x)
  from Cons.prems x have 1: "distinct (rp_triples d r rp)"
    by (simp add: wf_db_def distinct_rp_triples)
  from Cons have 2: "distinct (db_triples d db)" by (simp add: wf_db_def)
  from Cons.prems x have "r \<notin> fst ` set db" by (simp add: wf_db_def)
  then have 3: "set (rp_triples d r rp) \<inter> set (db_triples d db) = {}"
    by (auto simp: set_rp_triples set_db_triples) force
  from 1 2 3 show ?case by (simp add: x db_triples_Cons)
qed

lemma distinct_triples: "wf_index toto \<Longrightarrow> distinct (triples toto)"
proof (induction toto)
  case Nil
  show ?case by simp
next
  case (Cons x toto)
  obtain d db where x: "x = (d, db)" by (cases x)
  from Cons.prems x have 1: "distinct (db_triples d db)"
    by (simp add: wf_index_def distinct_db_triples)
  from Cons have 2: "distinct (triples toto)" by (simp add: wf_index_def)
  from Cons.prems x have "d \<notin> fst ` set toto" by (simp add: wf_index_def)
  then have 3: "set (db_triples d db) \<inter> set (triples toto) = {}"
    by (auto simp: set_db_triples set_triples) force
  from 1 2 3 show ?case by (simp add: x triples_Cons)
qed

lemma triples_iff:
  assumes "wf_index toto"
  shows "(d, r, m, a) \<in> set (triples toto) \<longleftrightarrow> lookupAddr toto d r m = Some a"
proof
  assume "(d, r, m, a) \<in> set (triples toto)"
  then obtain db rp where 1: "(d, db) \<in> set toto" and 2: "(r, rp) \<in> set db" and 3: "(m, a) \<in> set rp"
    by (auto simp: set_triples)
  from assms 1 2 have d1: "distinct (map fst toto)" and d2: "distinct (map fst db)"
    and d3: "distinct (map fst rp)"
    by (auto simp: wf_index_def wf_db_def)
  from map_of_is_SomeI[OF d1 1] map_of_is_SomeI[OF d2 2] map_of_is_SomeI[OF d3 3]
  show "lookupAddr toto d r m = Some a" by (simp add: lookupAddr_def)
next
  assume "lookupAddr toto d r m = Some a"
  then obtain db rp where "map_of toto d = Some db" "map_of db r = Some rp" "map_of rp m = Some a"
    by (auto simp: lookupAddr_def split: option.splits)
  then have "(d, db) \<in> set toto" "(r, rp) \<in> set db" "(m, a) \<in> set rp"
    by (auto dest: map_of_SomeD)
  then show "(d, r, m, a) \<in> set (triples toto)" by (auto simp: set_triples)
qed

lemma Ball_triple:
  "(\<forall>(d, r, m, a) \<in> S. P d r m a) \<longleftrightarrow> (\<forall>d r m a. (d, r, m, a) \<in> S \<longrightarrow> P d r m a)"
  by auto

lemma wf_store_iff:
  "wf_store st \<longleftrightarrow>
     wf_index (dbMap st) \<and>
     (\<forall>d r m a. lookupAddr (dbMap st) d r m = Some a \<longrightarrow> a < length (heap st)) \<and>
     (\<forall>d r m d' r' m' a. lookupAddr (dbMap st) d r m = Some a \<and>
        lookupAddr (dbMap st) d' r' m' = Some a \<longrightarrow> d = d' \<and> r = r' \<and> m = m')"
proof (cases "wf_index (dbMap st)")
  case False
  then show ?thesis by (simp add: wf_store_def)
next
  case True
  have "wf_store st \<longleftrightarrow>
     wf_index (dbMap st) \<and>
     (\<forall>d r m a. (d, r, m, a) \<in> set (triples (dbMap st)) \<longrightarrow> a < length (heap st)) \<and>
     (\<forall>d r m d' r' m' a. (d, r, m, a) \<in> set (triples (dbMap st)) \<and>
        (d', r', m', a) \<in> set (triples (dbMap st)) \<longrightarrow> d = d' \<and> r = r' \<and> m = m')"
    by (simp only: wf_store_def Ball_triple) blast
  then show ?thesis by (simp only: triples_iff[OF True])
qed

lemma wf_store_empty: "wf_store \<lparr>dbMap = [], heap = []\<rparr>"
  by (simp add: wf_store_def wf_index_def)

lemma wf_store_init:
  assumes "wf_store st"
  shows "wf_store (snd (initFieldsAndSeries st db rp ms fn))"
proof (cases "lookupAddr (dbMap st) db rp ms")
  case (Some a)
  with init_found[OF Some, of fn] assms show ?thesis by simp
next
  case None
  let ?st1 = "snd (initFieldsAndSeries st db rp ms fn)"
  from assms have w: "wf_index (dbMap st)"
    and b: "\<And>d r m a. lookupAddr (dbMap st) d r m = Some a \<Longrightarrow> a < length (heap st)"
    and i: "\<And>d r m d' r' m' a. lookupAddr (dbMap st) d r m = Some a \<Longrightarrow>
        lookupAddr (dbMap st) d' r' m' = Some a \<Longrightarrow> d = d' \<and> r = r' \<and> m = m'"
    unfolding wf_store_iff by blast+
  note l = init_missing(3)[OF None, of fn]
  note h = init_missing(2)[OF None, of fn]
  have 1: "wf_index (dbMap ?st1)" using w by (rule wf_index_init)
  have 2: "a < length (heap ?st1)" if "lookupAddr (dbMap ?st1) d r m = Some a" for d r m a
    using that b[of d r m a] by (auto simp: l h split: if_splits)
  have 3: "d = d' \<and> r = r' \<and> m = m'"
    if "lookupAddr (dbMap ?st1) d r m = Some a" "lookupAddr (dbMap ?st1) d' r' m' = Some a"
    for d r m d' r' m' a
    using that b[of d r m a] b[of d' r' m' a] i[of d r m a d' r' m']
    by (auto simp: l split: if_splits)
  from 1 2 3 show ?thesis unfolding wf_store_iff by blast
qed

lemma wf_store_processKey:
  assumes "wf_store st"
  shows "wf_store (processKey e fn db rp st key)"
proof -
  obtain seriesKey field found where c: "bytes_Cut key keyFieldSeparator = (seriesKey, field, found)"
    by (cases "bytes_Cut key keyFieldSeparator") auto
  obtain fs st1 where i: "initFieldsAndSeries st db rp (parseKey e seriesKey) fn = (fs, st1)"
    by (cases "initFieldsAndSeries st db rp (parseKey e seriesKey) fn")
  from wf_store_init[OF assms, of db rp "parseKey e seriesKey" fn] i have "wf_store st1" by simp
  then show ?thesis
    by (simp add: processKey_def c i fields_Add_def series_Add_def wf_store_def)
qed

lemma wf_store_processKeys:
  "wf_store st \<Longrightarrow> wf_store (foldl (processKey e fn db rp) st keys)"
  by (induction keys arbitrary: st) (simp_all add: wf_store_processKey)

section \<open>Properties of the loop over the keys\<close>

lemma bucket_after_adds:
  assumes "lookupAddr (dbMap st1) db rp m = Some fs" and "fs < length (heap st1)"
  shows "bucket (fields_Add e fs field (series_Add e fs key st1)) db rp m =
           Some \<lparr>fields_counter = Counter_Add e field (fields_counter (heap st1 ! fs)),
                 series = Counter_Add e key (series (heap st1 ! fs))\<rparr>"
  using assms by (simp add: bucket_def fields_Add_def series_Add_def)

lemma processKey_new:
  assumes cut: "bytes_Cut key keyFieldSeparator = (seriesKey, field, found)"
    and n: "lookupAddr (dbMap st) db rp (parseKey e seriesKey) = None"
  shows "bucket (processKey e fn db rp st key) db rp (parseKey e seriesKey) =
           Some \<lparr>fields_counter = Counter_Add e field fn, series = Counter_Add e key fn\<rparr>"
proof -
  let ?m = "parseKey e seriesKey"
  obtain a st1 where i: "initFieldsAndSeries st db rp ?m fn = (a, st1)"
    by (cases "initFieldsAndSeries st db rp ?m fn")
  have a: "a = length (heap st)"
    using init_missing(1)[OF n, of fn] by (simp add: i)
  have h: "heap st1 = heap st @ [\<lparr>fields_counter = fn, series = fn\<rparr>]"
    using init_missing(2)[OF n, of fn] by (simp add: i)
  have l: "lookupAddr (dbMap st1) db rp ?m = Some a"
    using init_missing(3)[OF n, of fn db rp ?m] by (simp add: i a)
  have p: "processKey e fn db rp st key = fields_Add e a field (series_Add e a key st1)"
    by (simp add: processKey_def cut i)
  have "a < length (heap st1)" by (simp add: h a)
  from bucket_after_adds[OF l this, of e field key] show ?thesis
    by (simp add: p h a)
qed

lemma processKey_old:
  assumes cut: "bytes_Cut key keyFieldSeparator = (seriesKey, field, found)"
    and b: "bucket st db rp (parseKey e seriesKey) = Some b"
  shows "bucket (processKey e fn db rp st key) db rp (parseKey e seriesKey) =
           Some \<lparr>fields_counter = Counter_Add e field (fields_counter b),
                 series = Counter_Add e key (series b)\<rparr>"
proof -
  let ?m = "parseKey e seriesKey"
  from b obtain a where l: "lookupAddr (dbMap st) db rp ?m = Some a"
    and a: "a < length (heap st)" and hb: "heap st ! a = b"
    by (auto simp: bucket_def split: option.splits if_splits)
  have p: "processKey e fn db rp st key = fields_Add e a field (series_Add e a key st)"
    by (simp add: processKey_def cut init_found[OF l])
  from bucket_after_adds[OF l a, of e field key] show ?thesis
    by (simp add: p hb)
qed

text \<open>
  C1, as amended. The item added to the series counter of the resolved bucket is the
  whole raw key (line 121 adds \<open>key\<close>, not \<open>seriesKey\<close>), and the item added to its
  fields counter is the part after the separator, whether the bucket is new or not.
  So two different raw keys with the same part before the separator put two items into
  the exact series counter of their measurement.
\<close>

theorem series_item_is_raw_key:
  "(bytes_Cut key keyFieldSeparator = (seriesKey, field, found) \<and>
    lookupAddr (dbMap st) db rp (parseKey e seriesKey) = None \<longrightarrow>
      bucket (processKey e fn db rp st key) db rp (parseKey e seriesKey) =
        Some \<lparr>fields_counter = Counter_Add e field fn, series = Counter_Add e key fn\<rparr>) \<and>
   (bytes_Cut key keyFieldSeparator = (seriesKey, field, found) \<and>
    bucket st db rp (parseKey e seriesKey) = Some b \<longrightarrow>
      bucket (processKey e fn db rp st key) db rp (parseKey e seriesKey) =
        Some \<lparr>fields_counter = Counter_Add e field (fields_counter b),
              series = Counter_Add e key (series b)\<rparr>) \<and>
   (bytes_Cut key keyFieldSeparator = (seriesKey, field, found) \<and>
    bytes_Cut key2 keyFieldSeparator = (seriesKey, field2, found2) \<and> key \<noteq> key2 \<and>
    lookupAddr (dbMap st) db rp (parseKey e seriesKey) = None \<longrightarrow>
      (\<exists>fs. bucket (processKey e NewExactCounter db rp (processKey e NewExactCounter db rp st key) key2)
               db rp (parseKey e seriesKey) = Some fs \<and>
            series fs = ExactCounter {key, key2} \<and>
            Counter_Count e (series fs) = 2))"
proof (intro conjI impI)
  assume "bytes_Cut key keyFieldSeparator = (seriesKey, field, found) \<and>
    lookupAddr (dbMap st) db rp (parseKey e seriesKey) = None"
  then show "bucket (processKey e fn db rp st key) db rp (parseKey e seriesKey) =
        Some \<lparr>fields_counter = Counter_Add e field fn, series = Counter_Add e key fn\<rparr>"
    using processKey_new by blast
next
  assume "bytes_Cut key keyFieldSeparator = (seriesKey, field, found) \<and>
    bucket st db rp (parseKey e seriesKey) = Some b"
  then show "bucket (processKey e fn db rp st key) db rp (parseKey e seriesKey) =
        Some \<lparr>fields_counter = Counter_Add e field (fields_counter b),
              series = Counter_Add e key (series b)\<rparr>"
    using processKey_old by blast
next
  assume h: "bytes_Cut key keyFieldSeparator = (seriesKey, field, found) \<and>
    bytes_Cut key2 keyFieldSeparator = (seriesKey, field2, found2) \<and> key \<noteq> key2 \<and>
    lookupAddr (dbMap st) db rp (parseKey e seriesKey) = None"
  let ?st1 = "processKey e NewExactCounter db rp st key"
  from h have 1: "bucket ?st1 db rp (parseKey e seriesKey) =
      Some \<lparr>fields_counter = Counter_Add e field NewExactCounter,
            series = Counter_Add e key NewExactCounter\<rparr>"
    using processKey_new by blast
  from h have c2: "bytes_Cut key2 keyFieldSeparator = (seriesKey, field2, found2)" by blast
  from processKey_old[OF c2 1, of NewExactCounter]
  have 2: "bucket (processKey e NewExactCounter db rp ?st1 key2) db rp (parseKey e seriesKey) =
      Some \<lparr>fields_counter = Counter_Add e field2 (Counter_Add e field NewExactCounter),
            series = Counter_Add e key2 (Counter_Add e key NewExactCounter)\<rparr>"
    by simp
  from h have "key \<noteq> key2" by blast
  then have "card {key2, key} = 2" by simp
  with 2 show "\<exists>fs. bucket (processKey e NewExactCounter db rp ?st1 key2)
               db rp (parseKey e seriesKey) = Some fs \<and>
            series fs = ExactCounter {key, key2} \<and>
            Counter_Count e (series fs) = 2"
    by (auto simp: NewExactCounter_def insert_commute)
qed

theorem series_item_is_raw_key_witness:
  "bytes_Cut ''cpu,host=a#!~#value'' keyFieldSeparator = (''cpu,host=a'', ''value'', True) \<and>
   bytes_Cut ''cpu,host=a#!~#other'' keyFieldSeparator = (''cpu,host=a'', ''other'', True) \<and>
   ''cpu,host=a#!~#value'' \<noteq> ''cpu,host=a#!~#other'' \<and>
   lookupAddr (dbMap \<lparr>dbMap = [], heap = ([] :: unit fieldsAndSeries list)\<rparr>) ''db0'' ''autogen''
      (parseKey (scenario [] []) ''cpu,host=a'') = None \<and>
   bucket (processKey (scenario [] []) NewExactCounter ''db0'' ''autogen'' \<lparr>dbMap = [], heap = []\<rparr>
             ''cpu,host=a#!~#value'') ''db0'' ''autogen'' (parseKey (scenario [] []) ''cpu,host=a'') =
     Some \<lparr>fields_counter = ExactCounter {''value''}, series = ExactCounter {''cpu,host=a#!~#value''}\<rparr> \<and>
   bucket (processKey (scenario [] []) NewExactCounter ''db0'' ''autogen''
             (processKey (scenario [] []) NewExactCounter ''db0'' ''autogen'' \<lparr>dbMap = [], heap = []\<rparr>
                ''cpu,host=a#!~#value'')
             ''cpu,host=a#!~#other'') ''db0'' ''autogen'' (parseKey (scenario [] []) ''cpu,host=a'') =
     Some \<lparr>fields_counter = ExactCounter {''other'', ''value''},
           series = ExactCounter {''cpu,host=a#!~#other'', ''cpu,host=a#!~#value''}\<rparr>"
proof -
  let ?e = "scenario [] []"
  let ?st = "\<lparr>dbMap = [], heap = ([] :: unit fieldsAndSeries list)\<rparr>"
  let ?k1 = "''cpu,host=a#!~#value''" and ?k2 = "''cpu,host=a#!~#other''"
  have c1: "bytes_Cut ?k1 keyFieldSeparator = (''cpu,host=a'', ''value'', True)"
    by (simp add: bytes_Cut_def keyFieldSeparator_def)
  have c2: "bytes_Cut ?k2 keyFieldSeparator = (''cpu,host=a'', ''other'', True)"
    by (simp add: bytes_Cut_def keyFieldSeparator_def)
  have ne: "?k1 \<noteq> ?k2" by simp
  have n: "lookupAddr (dbMap ?st) ''db0'' ''autogen'' (parseKey ?e ''cpu,host=a'') = None"
    by (simp add: lookupAddr_def)
  from series_item_is_raw_key[where key = ?k1 and seriesKey = "''cpu,host=a''" and field = "''value''"
      and found = True and st = ?st and db = "''db0''" and rp = "''autogen''" and e = ?e
      and fn = NewExactCounter] c1 n
  have b1: "bucket (processKey ?e NewExactCounter ''db0'' ''autogen'' ?st ?k1) ''db0'' ''autogen''
              (parseKey ?e ''cpu,host=a'') =
            Some \<lparr>fields_counter = ExactCounter {''value''}, series = ExactCounter {?k1}\<rparr>"
    by (simp add: NewExactCounter_def)
  from series_item_is_raw_key[where key = ?k2 and seriesKey = "''cpu,host=a''" and field = "''other''"
      and found = True and st = "processKey ?e NewExactCounter ''db0'' ''autogen'' ?st ?k1"
      and db = "''db0''" and rp = "''autogen''" and e = ?e and fn = NewExactCounter
      and b = "\<lparr>fields_counter = ExactCounter {''value''}, series = ExactCounter {?k1}\<rparr>"] c2 b1
  have b2: "bucket (processKey ?e NewExactCounter ''db0'' ''autogen''
              (processKey ?e NewExactCounter ''db0'' ''autogen'' ?st ?k1) ?k2) ''db0'' ''autogen''
              (parseKey ?e ''cpu,host=a'') =
            Some \<lparr>fields_counter = ExactCounter {''other'', ''value''},
                  series = ExactCounter {?k2, ?k1}\<rparr>"
    by simp
  from c1 c2 ne n b1 b2 show ?thesis by blast
qed

lemma scenario_fields [simp]:
  "parseKey (scenario k1 k2) = measurementName"
  by (simp add: scenario_def)

text \<open>
  C1 as stated fails: after the keys \<open>cpu,host=a#!~#value\<close> and \<open>cpu,host=a#!~#other\<close>,
  which have the same part before the separator, the exact series counter of \<open>cpu\<close>
  holds the two raw keys and counts 2; it does not hold \<open>cpu,host=a\<close>.
\<close>

theorem series_item_counterexample:
  "fst (bytes_Cut ''cpu,host=a#!~#value'' keyFieldSeparator) = ''cpu,host=a'' \<and>
   fst (bytes_Cut ''cpu,host=a#!~#other'' keyFieldSeparator) = ''cpu,host=a'' \<and>
   bucket (foldl (processKey (scenario [] []) NewExactCounter ''db0'' ''autogen'')
             \<lparr>dbMap = [], heap = []\<rparr> [''cpu,host=a#!~#value'', ''cpu,host=a#!~#other''])
      ''db0'' ''autogen'' ''cpu'' =
     Some \<lparr>fields_counter = ExactCounter {''value'', ''other''},
           series = ExactCounter {''cpu,host=a#!~#value'', ''cpu,host=a#!~#other''}\<rparr> \<and>
   Counter_Count (scenario [] [])
     (ExactCounter {''cpu,host=a#!~#value'', ''cpu,host=a#!~#other''}) = 2 \<and>
   ExactCounter {''cpu,host=a#!~#value'', ''cpu,host=a#!~#other''} \<noteq>
     (ExactCounter {''cpu,host=a''} :: unit counter)"
  by (simp add: bytes_Cut_def keyFieldSeparator_def processKey_def measurementName_def
      initFieldsAndSeries_def series_Add_def fields_Add_def bucket_def lookupAddr_def
      NewExactCounter_def insert_commute)

section \<open>What a key leaves in the index\<close>

lemma processKey_unfold:
  assumes "bytes_Cut key keyFieldSeparator = (seriesKey, field, found)"
    and "initFieldsAndSeries st db rp (parseKey e seriesKey) fn = (fs, st1)"
  shows "processKey e fn db rp st key = fields_Add e fs field (series_Add e fs key st1)"
  using assms by (simp add: processKey_def)

lemma init_address_valid:
  assumes "wf_store st" and "initFieldsAndSeries st db rp ms fn = (fs, st1)"
  shows "fs < length (heap st1) \<and> lookupAddr (dbMap st1) db rp ms = Some fs"
proof (cases "lookupAddr (dbMap st) db rp ms")
  case None
  from init_missing(1)[OF None, of fn] init_missing(2)[OF None, of fn]
    init_missing(3)[OF None, of fn db rp ms] assms(2)
  show ?thesis by simp
next
  case (Some a)
  from assms(1) Some have "a < length (heap st)" unfolding wf_store_iff by blast
  with init_found[OF Some, of fn] assms(2) Some show ?thesis by simp
qed

lemma init_address_fresh:
  assumes "wf_store st" and "initFieldsAndSeries st db rp ms fn = (fs, st1)"
    and "d \<noteq> db \<or> r \<noteq> rp \<or> m \<noteq> ms" and "lookupAddr (dbMap st) d r m = Some a"
  shows "a \<noteq> fs"
proof (cases "lookupAddr (dbMap st) db rp ms")
  case None
  from assms(1,4) have "a < length (heap st)" unfolding wf_store_iff by blast
  with init_missing(1)[OF None, of fn] assms(2) show ?thesis by simp
next
  case (Some a')
  from init_found[OF Some, of fn] assms(2) have e: "fs = a'" by simp
  show ?thesis
  proof
    assume "a = fs"
    with e assms(4) have "lookupAddr (dbMap st) d r m = Some a'" by simp
    with assms(1) Some have "d = db \<and> r = rp \<and> m = ms" unfolding wf_store_iff by blast
    with assms(3) show False by blast
  qed
qed

lemma init_address:
  assumes "wf_store st" and "initFieldsAndSeries st db rp ms fn = (fs, st1)"
  shows "fs < length (heap st1)"
    and "lookupAddr (dbMap st1) db rp ms = Some fs"
    and "length (heap st) \<le> length (heap st1)"
    and "take (length (heap st)) (heap st1) = heap st"
    and "d \<noteq> db \<or> r \<noteq> rp \<or> m \<noteq> ms \<Longrightarrow> lookupAddr (dbMap st1) d r m = lookupAddr (dbMap st) d r m"
    and "d \<noteq> db \<or> r \<noteq> rp \<or> m \<noteq> ms \<Longrightarrow> lookupAddr (dbMap st) d r m = Some a \<Longrightarrow> a \<noteq> fs"
proof -
  have st1: "st1 = snd (initFieldsAndSeries st db rp ms fn)"
    using assms(2) by simp
  from init_address_valid[OF assms] show "fs < length (heap st1)"
    and "lookupAddr (dbMap st1) db rp ms = Some fs" by simp_all
  show "length (heap st) \<le> length (heap st1)" unfolding st1 by (rule init_heap_length)
  show "take (length (heap st)) (heap st1) = heap st" unfolding st1 by (rule init_heap_prefix)
  show "lookupAddr (dbMap st1) d r m = lookupAddr (dbMap st) d r m" if "d \<noteq> db \<or> r \<noteq> rp \<or> m \<noteq> ms"
    unfolding st1 using that by (rule init_other)
  show "a \<noteq> fs" if "d \<noteq> db \<or> r \<noteq> rp \<or> m \<noteq> ms" "lookupAddr (dbMap st) d r m = Some a"
    using init_address_fresh[OF assms that] .
qed

lemma bucket_other:
  assumes wf: "wf_store st"
    and cut: "bytes_Cut key keyFieldSeparator = (seriesKey, field, found)"
    and ne: "d \<noteq> db \<or> r \<noteq> rp \<or> m \<noteq> parseKey e seriesKey"
  shows "bucket (processKey e fn db rp st key) d r m = bucket st d r m"
proof -
  obtain fs st1 where i: "initFieldsAndSeries st db rp (parseKey e seriesKey) fn = (fs, st1)"
    by (cases "initFieldsAndSeries st db rp (parseKey e seriesKey) fn")
  note A = init_address[OF wf i]
  note p = processKey_unfold[OF cut i]
  from wf have b: "\<And>d r m a. lookupAddr (dbMap st) d r m = Some a \<Longrightarrow> a < length (heap st)"
    unfolding wf_store_iff by blast
  show ?thesis
  proof (cases "lookupAddr (dbMap st) d r m")
    case None
    with A(5)[OF ne] show ?thesis
      by (simp add: p bucket_def)
  next
    case (Some a)
    from A(6)[OF ne Some] have af: "a \<noteq> fs" .
    from b[OF Some] have al: "a < length (heap st)" .
    with A(3) have al1: "a < length (heap st1)" by simp
    have "heap st1 ! a = take (length (heap st)) (heap st1) ! a" using al by simp
    then have h: "heap st1 ! a = heap st ! a" by (simp only: A(4))
    from Some A(5)[OF ne] have l1: "lookupAddr (dbMap st1) d r m = Some a" by simp
    show ?thesis
      using af al al1 h by (simp add: p bucket_def l1 Some fields_Add_def series_Add_def)
  qed
qed

lemma bucket_same:
  assumes wf: "wf_store st"
    and cut: "bytes_Cut key keyFieldSeparator = (seriesKey, field, found)"
  shows "bucket (processKey e fn db rp st key) db rp (parseKey e seriesKey) =
           Some \<lparr>fields_counter =
                   Counter_Add e field
                     (case bucket st db rp (parseKey e seriesKey) of
                        None \<Rightarrow> fn | Some b \<Rightarrow> fields_counter b),
                 series =
                   Counter_Add e key
                     (case bucket st db rp (parseKey e seriesKey) of
                        None \<Rightarrow> fn | Some b \<Rightarrow> series b)\<rparr>"
proof (cases "lookupAddr (dbMap st) db rp (parseKey e seriesKey)")
  case None
  then have "bucket st db rp (parseKey e seriesKey) = None" by (simp add: bucket_def)
  with processKey_new[OF cut None, of fn] show ?thesis by simp
next
  case (Some a)
  from wf Some have "a < length (heap st)" unfolding wf_store_iff by blast
  with Some have b: "bucket st db rp (parseKey e seriesKey) = Some (heap st ! a)"
    by (simp add: bucket_def)
  from processKey_old[OF cut b, of fn] b show ?thesis by simp
qed

lemma items_Counter_Add: "items c \<subseteq> items (Counter_Add e item c)"
  by (cases c) auto

lemma item_Counter_Add: "is_exact c \<Longrightarrow> item \<in> items (Counter_Add e item c)"
  by (cases c) auto

lemma is_exact_Counter_Add [simp]: "is_exact (Counter_Add e item c) = is_exact c"
  by (cases c) auto

lemma all_exact_empty: "all_exact \<lparr>dbMap = [], heap = []\<rparr>"
  by (simp add: all_exact_def)

lemma all_exact_init:
  "all_exact st \<Longrightarrow> all_exact (snd (initFieldsAndSeries st db rp ms NewExactCounter))"
proof (cases "lookupAddr (dbMap st) db rp ms")
  case None
  assume "all_exact st"
  with init_missing(2)[OF None, of NewExactCounter] show ?thesis
    by (auto simp: all_exact_def NewExactCounter_def)
next
  case (Some a)
  assume "all_exact st"
  with init_found[OF Some, of NewExactCounter] show ?thesis by simp
qed

lemma all_exact_update:
  assumes "all_exact st" and "fs < length (heap st)"
  shows "all_exact (fields_Add e fs field (series_Add e fs key st))"
proof -
  from assms have x: "is_exact (series (heap st ! fs)) \<and> is_exact (fields_counter (heap st ! fs))"
    by (simp add: all_exact_def)
  have "b \<in> set (heap (fields_Add e fs field (series_Add e fs key st))) \<Longrightarrow>
          is_exact (series b) \<and> is_exact (fields_counter b)" for b
    using assms x
    by (auto simp: fields_Add_def series_Add_def all_exact_def dest!: set_update_subset_insert[THEN subsetD])
  then show ?thesis by (simp add: all_exact_def)
qed

lemma all_exact_processKey:
  assumes "wf_store st" and "all_exact st"
  shows "all_exact (processKey e NewExactCounter db rp st key)"
proof -
  obtain seriesKey field found where c: "bytes_Cut key keyFieldSeparator = (seriesKey, field, found)"
    by (cases "bytes_Cut key keyFieldSeparator") auto
  obtain fs st1 where i: "initFieldsAndSeries st db rp (parseKey e seriesKey) NewExactCounter = (fs, st1)"
    by (cases "initFieldsAndSeries st db rp (parseKey e seriesKey) NewExactCounter")
  from all_exact_init[OF assms(2), of db rp "parseKey e seriesKey"] i have "all_exact st1" by simp
  from all_exact_update[OF this init_address(1)[OF assms(1) i]] show ?thesis
    by (simp add: processKey_unfold[OF c i])
qed

lemma counted_self:
  assumes wf: "wf_store st" and ex: "all_exact st"
  shows "counted e (processKey e NewExactCounter db rp st key) db rp key"
proof -
  obtain seriesKey field found where c: "bytes_Cut key keyFieldSeparator = (seriesKey, field, found)"
    by (cases "bytes_Cut key keyFieldSeparator") auto
  let ?m = "parseKey e seriesKey"
  have f: "is_exact (case bucket st db rp ?m of None \<Rightarrow> NewExactCounter | Some b \<Rightarrow> fields_counter b)"
    and s: "is_exact (case bucket st db rp ?m of None \<Rightarrow> NewExactCounter | Some b \<Rightarrow> series b)"
    using ex by (auto simp: all_exact_def bucket_def NewExactCounter_def split: option.splits if_splits)
  from item_Counter_Add[OF f, of field e] item_Counter_Add[OF s, of key e]
  show ?thesis
    by (simp add: counted_def c bucket_same[OF wf c])
qed

lemma counted_mono:
  assumes wf: "wf_store st" and cn: "counted e st d r k"
  shows "counted e (processKey e fn db rp st key) d r k"
proof -
  obtain seriesKey field found where c: "bytes_Cut key keyFieldSeparator = (seriesKey, field, found)"
    by (cases "bytes_Cut key keyFieldSeparator") auto
  obtain sk f fd where ck: "bytes_Cut k keyFieldSeparator = (sk, f, fd)"
    by (cases "bytes_Cut k keyFieldSeparator") auto
  from cn ck obtain b where b: "bucket st d r (parseKey e sk) = Some b"
    and ks: "k \<in> items (series b)" and fs: "f \<in> items (fields_counter b)"
    by (auto simp: counted_def split: option.splits)
  show ?thesis
  proof (cases "d \<noteq> db \<or> r \<noteq> rp \<or> parseKey e sk \<noteq> parseKey e seriesKey")
    case True
    from bucket_other[OF wf c True, of fn] b ks fs show ?thesis
      by (simp add: counted_def ck)
  next
    case False
    then have eq: "d = db" "r = rp" "parseKey e sk = parseKey e seriesKey" by auto
    from bucket_same[OF wf c, of e fn db rp] b ks fs
      items_Counter_Add[of "series b" e key] items_Counter_Add[of "fields_counter b" e field]
    show ?thesis
      by (auto simp: counted_def ck eq)
  qed
qed

lemma counted_mono_keys:
  "wf_store st \<Longrightarrow> counted e st d r k \<Longrightarrow> counted e (foldl (processKey e fn db rp) st keys) d r k"
  by (induction keys arbitrary: st) (simp_all add: counted_mono wf_store_processKey)

lemma all_exact_processKeys:
  "wf_store st \<Longrightarrow> all_exact st \<Longrightarrow> all_exact (foldl (processKey e NewExactCounter db rp) st keys)"
  by (induction keys arbitrary: st) (simp_all add: all_exact_processKey wf_store_processKey)

lemma counted_keys:
  "wf_store st \<Longrightarrow> all_exact st \<Longrightarrow> key \<in> set keys \<Longrightarrow>
     counted e (foldl (processKey e NewExactCounter db rp) st keys) db rp key"
proof (induction keys arbitrary: st)
  case Nil
  then show ?case by simp
next
  case (Cons k keys)
  let ?st1 = "processKey e NewExactCounter db rp st k"
  have w1: "wf_store ?st1" using Cons.prems(1) by (rule wf_store_processKey)
  have e1: "all_exact ?st1" using Cons.prems(1,2) by (rule all_exact_processKey)
  show ?case
  proof (cases "key = k")
    case True
    from counted_self[OF Cons.prems(1,2), of e db rp k] True
    have "counted e ?st1 db rp key" by simp
    from counted_mono_keys[OF w1 this] show ?thesis by simp
  next
    case False
    with Cons.prems(3) have "key \<in> set keys" by simp
    from Cons.IH[OF w1 e1 this] show ?thesis by simp
  qed
qed

section \<open>Properties of the loop over the files\<close>

lemma warn_store [simp]: "store (warn e d ps) = store ps"
  by (simp add: warn_def)

lemma warn_stderr:
  "stderrFail e (stderr ps) d = None \<Longrightarrow> stderr (warn e d ps) = stderr ps @ [d]"
  by (simp add: warn_def Fprintf_Stderr_def)

lemma processFile_nil [simp]: "fst (processFile e fn loc ps) = None"
  by (auto simp: processFile_def Let_def split: prod.splits tsm_file.splits option.splits)

lemma processFile_store:
  "store (snd (processFile e fn (db, rp, sid, path) ps)) =
     (case openTSM e path of
        Reader keys cerr \<Rightarrow> foldl (processKey e fn db rp) (store ps) keys
      | _ \<Rightarrow> store ps)"
  by (auto simp: processFile_def Let_def split: tsm_file.splits option.splits)

lemma processFile_store_cong:
  "store ps = store ps' \<Longrightarrow>
     store (snd (processFile e fn loc ps)) = store (snd (processFile e fn loc ps'))"
  by (cases loc) (auto simp: processFile_store split: tsm_file.splits)

lemma forEachFile_step:
  "forEachFile (processFile e fn) (loc # locs) ps =
     forEachFile (processFile e fn) locs (snd (processFile e fn loc ps))"
proof -
  obtain r ps1 where p: "processFile e fn loc ps = (r, ps1)"
    by (cases "processFile e fn loc ps")
  with processFile_nil[of e fn loc ps] have "r = None" by simp
  with p show ?thesis by simp
qed

lemma forEachFile_nil: "fst (forEachFile (processFile e fn) locs ps) = None"
proof (induction locs arbitrary: ps)
  case Nil
  show ?case by simp
next
  case (Cons loc locs)
  show ?case by (simp only: forEachFile_step Cons.IH)
qed

lemma forEachFile_store_cong:
  "store ps = store ps' \<Longrightarrow>
     store (snd (forEachFile (processFile e fn) locs ps)) =
     store (snd (forEachFile (processFile e fn) locs ps'))"
proof (induction locs arbitrary: ps ps')
  case Nil
  then show ?case by simp
next
  case (Cons loc locs)
  from Cons.prems have "store (snd (processFile e fn loc ps)) = store (snd (processFile e fn loc ps'))"
    by (rule processFile_store_cong)
  from Cons.IH[OF this] show ?case by (simp only: forEachFile_step)
qed

lemma unreadable_store:
  "\<not> readable e loc \<Longrightarrow> store (snd (processFile e fn loc ps)) = store ps"
  by (cases loc) (auto simp: readable_def processFile_store split: tsm_file.splits)

lemma forEachFile_readable:
  "store (snd (forEachFile (processFile e fn) locs ps)) =
     store (snd (forEachFile (processFile e fn) (filter (readable e) locs) ps))"
proof (induction locs arbitrary: ps)
  case Nil
  show ?case by simp
next
  case (Cons loc locs)
  show ?case
  proof (cases "readable e loc")
    case True
    then have "filter (readable e) (loc # locs) = loc # filter (readable e) locs" by simp
    then show ?thesis by (simp only: forEachFile_step Cons.IH)
  next
    case False
    then have f: "filter (readable e) (loc # locs) = filter (readable e) locs" by simp
    have "store (snd (forEachFile (processFile e fn) (loc # locs) ps)) =
          store (snd (forEachFile (processFile e fn) locs (snd (processFile e fn loc ps))))"
      by (simp only: forEachFile_step)
    also have "\<dots> = store (snd (forEachFile (processFile e fn) locs ps))"
      by (rule forEachFile_store_cong) (rule unreadable_store[OF False])
    also have "\<dots> = store (snd (forEachFile (processFile e fn) (filter (readable e) locs) ps))"
      by (rule Cons.IH)
    finally show ?thesis by (simp only: f)
  qed
qed

lemma processFile_countFile:
  "store (snd (processFile e fn loc ps)) = countFile e fn (store ps) loc"
  by (cases loc) (auto simp: processFile_store countFile_def fileKeys_def split: tsm_file.splits)

lemma forEachFile_countFile:
  "store (snd (forEachFile (processFile e fn) locs ps)) = foldl (countFile e fn) (store ps) locs"
proof (induction locs arbitrary: ps)
  case Nil
  show ?case by simp
next
  case (Cons loc locs)
  show ?case by (simp only: forEachFile_step Cons.IH processFile_countFile foldl_Cons)
qed

lemma wf_store_countFile: "wf_store st \<Longrightarrow> wf_store (countFile e fn st loc)"
  by (cases loc) (simp add: countFile_def wf_store_processKeys)

lemma wf_store_countFiles: "wf_store st \<Longrightarrow> wf_store (foldl (countFile e fn) st locs)"
  by (induction locs arbitrary: st) (simp_all add: wf_store_countFile)

lemma all_exact_countFile:
  "wf_store st \<Longrightarrow> all_exact st \<Longrightarrow> all_exact (countFile e NewExactCounter st loc)"
  by (cases loc) (simp add: countFile_def all_exact_processKeys)

lemma counted_mono_countFile:
  "wf_store st \<Longrightarrow> counted e st d r k \<Longrightarrow> counted e (countFile e fn st loc) d r k"
  by (cases loc) (simp add: countFile_def counted_mono_keys)

lemma counted_mono_countFiles:
  "wf_store st \<Longrightarrow> counted e st d r k \<Longrightarrow> counted e (foldl (countFile e fn) st locs) d r k"
  by (induction locs arbitrary: st) (simp_all add: counted_mono_countFile wf_store_countFile)

lemma counted_countFiles:
  assumes "wf_store st" and "all_exact st"
    and "(db, rp, sid, path) \<in> set locs" and "key \<in> set (fileKeys e path)"
  shows "counted e (foldl (countFile e NewExactCounter) st locs) db rp key"
  using assms
proof (induction locs arbitrary: st)
  case Nil
  then show ?case by simp
next
  case (Cons loc locs)
  let ?st1 = "countFile e NewExactCounter st loc"
  have w1: "wf_store ?st1" using Cons.prems(1) by (rule wf_store_countFile)
  have e1: "all_exact ?st1" using Cons.prems(1,2) by (rule all_exact_countFile)
  show ?case
  proof (cases "loc = (db, rp, sid, path)")
    case True
    from counted_keys[OF Cons.prems(1,2,4), of e db rp] True
    have "counted e ?st1 db rp key" by (simp add: countFile_def)
    from counted_mono_countFiles[OF w1 this] show ?thesis by simp
  next
    case False
    with Cons.prems(3) have "(db, rp, sid, path) \<in> set locs" by simp
    from Cons.IH[OF w1 e1 this Cons.prems(4)] show ?thesis by simp
  qed
qed

text \<open>
  C7. A file that cannot be opened, or over which no reader can be made, makes the
  callback write one \<open>Skipping\<close> warning to standard error and return \<open>nil\<close>, with the
  index as it was. A reader has all its keys processed, in the order of its index;
  when its \<open>Close\<close> fails the warning is written, and \<open>nil\<close> is returned either way.
  So the walk over the files of a shard never stops at a file: the index it leaves
  is the index it found with the keys of every file that has a reader processed into
  it, file after file, and the files without a reader leave no trace in it. What was
  counted before stays counted, and with exact counters every key of every file that
  has a reader is counted in the end: the key is among the series items of its
  bucket and its field name among the field items.
\<close>

theorem file_failures_are_skipped:
  "(openTSM e path = OpenFails err \<or> openTSM e path = ReaderFails err \<longrightarrow>
      processFile e fn (db, rp, sid, path) ps = (None, warn e (Skipping path err) ps) \<and>
      store (warn e (Skipping path err) ps) = store ps \<and>
      (stderrFail e (stderr ps) (Skipping path err) = None \<longrightarrow>
         stderr (warn e (Skipping path err) ps) = stderr ps @ [Skipping path err])) \<and>
   (openTSM e path = Reader keys None \<longrightarrow>
      processFile e fn (db, rp, sid, path) ps =
        (None, ps\<lparr>store := foldl (processKey e fn db rp) (store ps) keys\<rparr>)) \<and>
   (openTSM e path = Reader keys (Some err) \<longrightarrow>
      processFile e fn (db, rp, sid, path) ps =
        (None, warn e (ErrorClosing path err)
                 (ps\<lparr>store := foldl (processKey e fn db rp) (store ps) keys\<rparr>)) \<and>
      store (snd (processFile e fn (db, rp, sid, path) ps)) =
        foldl (processKey e fn db rp) (store ps) keys \<and>
      (stderrFail e (stderr ps) (ErrorClosing path err) = None \<longrightarrow>
         stderr (snd (processFile e fn (db, rp, sid, path) ps)) = stderr ps @ [ErrorClosing path err])) \<and>
   fst (forEachFile (processFile e fn) locs ps) = None \<and>
   store (snd (forEachFile (processFile e fn) locs ps)) = foldl (countFile e fn) (store ps) locs \<and>
   store (snd (forEachFile (processFile e fn) locs ps)) =
     store (snd (forEachFile (processFile e fn) (filter (readable e) locs) ps)) \<and>
   (shardFiles e p = Inr locs \<longrightarrow>
      fst (WalkShardDirs e p (processFile e fn) ps) = None \<and>
      store (snd (WalkShardDirs e p (processFile e fn) ps)) = foldl (countFile e fn) (store ps) locs \<and>
      store (snd (WalkShardDirs e p (processFile e fn) ps)) =
        store (snd (forEachFile (processFile e fn) (filter (readable e) locs) ps))) \<and>
   (wf_store (store ps) \<and> counted e (store ps) d r k \<longrightarrow>
      counted e (store (snd (forEachFile (processFile e fn) locs ps))) d r k) \<and>
   (wf_store (store ps) \<and> all_exact (store ps) \<and>
    (db, rp, sid, path) \<in> set locs \<and> openTSM e path = Reader keys cerr \<and> key \<in> set keys \<longrightarrow>
      counted e (store (snd (forEachFile (processFile e NewExactCounter) locs ps))) db rp key)"
proof -
  have 1: "openTSM e path = OpenFails err \<or> openTSM e path = ReaderFails err \<longrightarrow>
      processFile e fn (db, rp, sid, path) ps = (None, warn e (Skipping path err) ps) \<and>
      store (warn e (Skipping path err) ps) = store ps \<and>
      (stderrFail e (stderr ps) (Skipping path err) = None \<longrightarrow>
         stderr (warn e (Skipping path err) ps) = stderr ps @ [Skipping path err])"
    by (auto simp: processFile_def warn_stderr)
  have 2: "openTSM e path = Reader keys None \<longrightarrow>
      processFile e fn (db, rp, sid, path) ps =
        (None, ps\<lparr>store := foldl (processKey e fn db rp) (store ps) keys\<rparr>)"
    by (simp add: processFile_def Let_def)
  have 3: "openTSM e path = Reader keys (Some err) \<longrightarrow>
      processFile e fn (db, rp, sid, path) ps =
        (None, warn e (ErrorClosing path err)
                 (ps\<lparr>store := foldl (processKey e fn db rp) (store ps) keys\<rparr>)) \<and>
      store (snd (processFile e fn (db, rp, sid, path) ps)) =
        foldl (processKey e fn db rp) (store ps) keys \<and>
      (stderrFail e (stderr ps) (ErrorClosing path err) = None \<longrightarrow>
         stderr (snd (processFile e fn (db, rp, sid, path) ps)) = stderr ps @ [ErrorClosing path err])"
    by (simp add: processFile_def Let_def warn_def Fprintf_Stderr_def)
  have 4: "fst (forEachFile (processFile e fn) locs ps) = None" by (rule forEachFile_nil)
  have 5: "store (snd (forEachFile (processFile e fn) locs ps)) = foldl (countFile e fn) (store ps) locs"
    by (rule forEachFile_countFile)
  have 6: "store (snd (forEachFile (processFile e fn) locs ps)) =
     store (snd (forEachFile (processFile e fn) (filter (readable e) locs) ps))"
    by (rule forEachFile_readable)
  have 7: "shardFiles e p = Inr locs \<longrightarrow>
      fst (WalkShardDirs e p (processFile e fn) ps) = None \<and>
      store (snd (WalkShardDirs e p (processFile e fn) ps)) = foldl (countFile e fn) (store ps) locs \<and>
      store (snd (WalkShardDirs e p (processFile e fn) ps)) =
        store (snd (forEachFile (processFile e fn) (filter (readable e) locs) ps))"
    using 4 5 6 by (simp add: WalkShardDirs_def)
  have 8: "wf_store (store ps) \<and> counted e (store ps) d r k \<longrightarrow>
      counted e (store (snd (forEachFile (processFile e fn) locs ps))) d r k"
    by (simp add: forEachFile_countFile counted_mono_countFiles)
  have 9: "wf_store (store ps) \<and> all_exact (store ps) \<and>
    (db, rp, sid, path) \<in> set locs \<and> openTSM e path = Reader keys cerr \<and> key \<in> set keys \<longrightarrow>
      counted e (store (snd (forEachFile (processFile e NewExactCounter) locs ps))) db rp key"
  proof
    assume h: "wf_store (store ps) \<and> all_exact (store ps) \<and>
      (db, rp, sid, path) \<in> set locs \<and> openTSM e path = Reader keys cerr \<and> key \<in> set keys"
    then have k: "key \<in> set (fileKeys e path)" by (simp add: fileKeys_def)
    from h have w: "wf_store (store ps)" and x: "all_exact (store ps)"
      and l: "(db, rp, sid, path) \<in> set locs" by blast+
    from counted_countFiles[OF w x l k]
    show "counted e (store (snd (forEachFile (processFile e NewExactCounter) locs ps))) db rp key"
      by (simp only: forEachFile_countFile)
  qed
  from 1 2 3 4 5 6 7 8 9 show ?thesis by blast
qed

text \<open>
  An instance: a shard with a file that is no TSM file, a readable file, and a file
  whose reader fails to close. The first leaves a warning and nothing else; the keys
  of the other two are all counted: \<open>cpu\<close> has two series and one field, \<open>mem\<close> one
  series and one field.
\<close>

theorem file_failures_are_skipped_witness:
  "openTSM brokenShard ''data/db0/autogen/1/000000001-000000001.tsm'' = ReaderFails ''init: read footer: EOF'' \<and>
   processFile brokenShard NewExactCounter
       (''db0'', ''autogen'', ''1'', ''data/db0/autogen/1/000000001-000000001.tsm'')
       \<lparr>store = \<lparr>dbMap = [], heap = []\<rparr>, stderr = []\<rparr> =
     (None, \<lparr>store = \<lparr>dbMap = [], heap = []\<rparr>,
             stderr = [Skipping ''data/db0/autogen/1/000000001-000000001.tsm'' ''init: read footer: EOF'']\<rparr>) \<and>
   openTSM brokenShard ''data/db0/autogen/1/000000003-000000001.tsm'' =
     Reader [''cpu,host=b#!~#value''] (Some ''file already closed'') \<and>
   stderr (snd (processFile brokenShard NewExactCounter
       (''db0'', ''autogen'', ''1'', ''data/db0/autogen/1/000000003-000000001.tsm'')
       \<lparr>store = \<lparr>dbMap = [], heap = []\<rparr>, stderr = []\<rparr>)) =
     [ErrorClosing ''data/db0/autogen/1/000000003-000000001.tsm'' ''file already closed''] \<and>
   shardFiles brokenShard ''data/db0/autogen/1'' =
     Inr [(''db0'', ''autogen'', ''1'', ''data/db0/autogen/1/000000001-000000001.tsm''),
          (''db0'', ''autogen'', ''1'', ''data/db0/autogen/1/000000002-000000001.tsm''),
          (''db0'', ''autogen'', ''1'', ''data/db0/autogen/1/000000003-000000001.tsm'')] \<and>
   WalkShardDirs brokenShard ''data/db0/autogen/1'' (processFile brokenShard NewExactCounter)
          \<lparr>store = \<lparr>dbMap = [], heap = []\<rparr>, stderr = []\<rparr> =
     (None,
      \<lparr>store =
         \<lparr>dbMap = [(''db0'', [(''autogen'', [(''cpu'', 0), (''mem'', 1)])])],
          heap = [\<lparr>fields_counter = ExactCounter {''value''},
                   series = ExactCounter {''cpu,host=a#!~#value'', ''cpu,host=b#!~#value''}\<rparr>,
                  \<lparr>fields_counter = ExactCounter {''used''},
                   series = ExactCounter {''mem,host=a#!~#used''}\<rparr>]\<rparr>,
       stderr = [Skipping ''data/db0/autogen/1/000000001-000000001.tsm'' ''init: read footer: EOF'',
                 ErrorClosing ''data/db0/autogen/1/000000003-000000001.tsm'' ''file already closed'']\<rparr>) \<and>
   counted brokenShard
     (store (snd (forEachFile (processFile brokenShard NewExactCounter)
        [(''db0'', ''autogen'', ''1'', ''data/db0/autogen/1/000000001-000000001.tsm''),
         (''db0'', ''autogen'', ''1'', ''data/db0/autogen/1/000000002-000000001.tsm''),
         (''db0'', ''autogen'', ''1'', ''data/db0/autogen/1/000000003-000000001.tsm'')]
        \<lparr>store = \<lparr>dbMap = [], heap = []\<rparr>, stderr = []\<rparr>)))
     ''db0'' ''autogen'' ''mem,host=a#!~#used'' \<and>
   Counter_Count brokenShard (ExactCounter {''cpu,host=a#!~#value'', ''cpu,host=b#!~#value''}) = 2"
proof -
  let ?ps = "\<lparr>store = \<lparr>dbMap = [], heap = ([] :: unit fieldsAndSeries list)\<rparr>, stderr = []\<rparr>"
  let ?f1 = "''data/db0/autogen/1/000000001-000000001.tsm''"
  let ?f2 = "''data/db0/autogen/1/000000002-000000001.tsm''"
  let ?f3 = "''data/db0/autogen/1/000000003-000000001.tsm''"
  let ?locs = "[(''db0'', ''autogen'', ''1'', ?f1), (''db0'', ''autogen'', ''1'', ?f2),
                (''db0'', ''autogen'', ''1'', ?f3)]"
  have o1: "openTSM brokenShard ?f1 = ReaderFails ''init: read footer: EOF''"
    by (simp add: brokenShard_def)
  have o2: "openTSM brokenShard ?f2 = Reader [''cpu,host=a#!~#value'', ''mem,host=a#!~#used''] None"
    by (simp add: brokenShard_def)
  have o3: "openTSM brokenShard ?f3 = Reader [''cpu,host=b#!~#value''] (Some ''file already closed'')"
    by (simp add: brokenShard_def)
  have w: "stderrFail brokenShard out d = None" for out d
    by (simp add: brokenShard_def scenario_def)
  have pk: "parseKey brokenShard = measurementName"
    by (simp add: brokenShard_def scenario_def)
  have sf: "shardFiles brokenShard ''data/db0/autogen/1'' = Inr ?locs"
    by (simp add: brokenShard_def)
  note T1 = file_failures_are_skipped[where e = brokenShard and path = ?f1
      and err = "''init: read footer: EOF''" and fn = NewExactCounter and db = "''db0''"
      and rp = "''autogen''" and sid = "''1''" and ps = ?ps and p = "''data/db0/autogen/1''"
      and locs = ?locs]
  note T2 = file_failures_are_skipped[where e = brokenShard and path = ?f2
      and keys = "[''cpu,host=a#!~#value'', ''mem,host=a#!~#used'']" and cerr = None
      and key = "''mem,host=a#!~#used''"
      and fn = NewExactCounter and db = "''db0''"
      and rp = "''autogen''" and sid = "''1''" and ps = ?ps and p = "''data/db0/autogen/1''"
      and locs = ?locs]
  note T3 = file_failures_are_skipped[where e = brokenShard and path = ?f3
      and err = "''file already closed''" and keys = "[''cpu,host=b#!~#value'']"
      and fn = NewExactCounter and db = "''db0''"
      and rp = "''autogen''" and sid = "''1''" and ps = ?ps and p = "''data/db0/autogen/1''"
      and locs = ?locs]
  have "openTSM brokenShard ?f1 = OpenFails ''init: read footer: EOF'' \<or>
        openTSM brokenShard ?f1 = ReaderFails ''init: read footer: EOF''"
    using o1 by blast
  note S1 = T1[THEN conjunct1, rule_format, OF this]
  have 1: "processFile brokenShard NewExactCounter (''db0'', ''autogen'', ''1'', ?f1) ?ps =
      (None, \<lparr>store = \<lparr>dbMap = [], heap = []\<rparr>, stderr = [Skipping ?f1 ''init: read footer: EOF'']\<rparr>)"
    using S1[THEN conjunct1] by (simp add: warn_def Fprintf_Stderr_def w)
  note S3 = T3[THEN conjunct2, THEN conjunct2, THEN conjunct1, rule_format, OF o3]
  have 3: "stderr (snd (processFile brokenShard NewExactCounter
       (''db0'', ''autogen'', ''1'', ?f3) ?ps)) = [ErrorClosing ?f3 ''file already closed'']"
    using S3[THEN conjunct2, THEN conjunct2, rule_format, OF w] by simp
  have 4: "WalkShardDirs brokenShard ''data/db0/autogen/1'' (processFile brokenShard NewExactCounter) ?ps =
     (None,
      \<lparr>store =
         \<lparr>dbMap = [(''db0'', [(''autogen'', [(''cpu'', 0), (''mem'', 1)])])],
          heap = [\<lparr>fields_counter = ExactCounter {''value''},
                   series = ExactCounter {''cpu,host=a#!~#value'', ''cpu,host=b#!~#value''}\<rparr>,
                  \<lparr>fields_counter = ExactCounter {''used''},
                   series = ExactCounter {''mem,host=a#!~#used''}\<rparr>]\<rparr>,
       stderr = [Skipping ?f1 ''init: read footer: EOF'', ErrorClosing ?f3 ''file already closed'']\<rparr>)"
    by (simp add: WalkShardDirs_def sf processFile_def o1 o2 o3 w pk warn_def Fprintf_Stderr_def
        processKey_def bytes_Cut_def keyFieldSeparator_def measurementName_def
        initFieldsAndSeries_def series_Add_def fields_Add_def NewExactCounter_def Let_def
        insert_commute)
  have wf: "wf_store (store ?ps)" by (simp add: wf_store_empty)
  have ex: "all_exact (store ?ps)" by (simp add: all_exact_empty)
  have mem: "(''db0'', ''autogen'', ''1'', ?f2) \<in> set ?locs" by simp
  have k: "''mem,host=a#!~#used'' \<in> set [''cpu,host=a#!~#value'', ''mem,host=a#!~#used'']" by simp
  from wf ex mem o2 k
  have h: "wf_store (store ?ps) \<and> all_exact (store ?ps) \<and>
    (''db0'', ''autogen'', ''1'', ?f2) \<in> set ?locs \<and>
    openTSM brokenShard ?f2 = Reader [''cpu,host=a#!~#value'', ''mem,host=a#!~#used''] None \<and>
    ''mem,host=a#!~#used'' \<in> set [''cpu,host=a#!~#value'', ''mem,host=a#!~#used'']"
    by blast
  note S9 = T2[THEN conjunct2, THEN conjunct2, THEN conjunct2, THEN conjunct2, THEN conjunct2,
      THEN conjunct2, THEN conjunct2, THEN conjunct2, rule_format, OF h]
  have 5: "Counter_Count brokenShard (ExactCounter {''cpu,host=a#!~#value'', ''cpu,host=b#!~#value''}) = 2"
    by simp
  from o1 1 o3 3 sf 4 S9 5 show ?thesis by blast
qed

section \<open>Properties of the report\<close>

lemma reportRows_Some:
  "reportRows e h ts (tw, c2, sT, fT) = (None, tw', c2', sT', fT') \<Longrightarrow>
     tw' = tw @ map (rowOf e h) ts \<and>
     c2' = c2 + sum_list (map (\<lambda>t. seriesN e h t * fieldsN e h t) ts) \<and>
     sT' = sT + sum_list (map (seriesN e h) ts) \<and>
     fT' = fT + sum_list (map (fieldsN e h) ts)"
proof (induction ts arbitrary: tw c2 sT fT)
  case Nil
  then show ?case by simp
next
  case (Cons t ts)
  obtain d r m a where t: "t = (d, r, m, a)" by (cases t) auto
  let ?s = "seriesN e h t" and ?f = "fieldsN e h t"
  from Cons.prems have w: "Fprint_tw e (rowOf e h t) tw = (None, tw @ [rowOf e h t])"
    and rest: "reportRows e h ts (tw @ [rowOf e h t], c2 + ?s * ?f, sT + ?s, fT + ?f) =
                 (None, tw', c2', sT', fT')"
    by (auto simp: t rowOf_def seriesN_def fieldsN_def Let_def Fprint_tw_def split: option.splits)
  from Cons.IH[OF rest] show ?case by (simp add: add.assoc)
qed

lemma reportRows_total:
  "(\<And>tw l. twFail e tw l = None) \<Longrightarrow> fst (reportRows e h ts acc) = None"
proof (induction ts arbitrary: acc)
  case Nil
  show ?case by simp
next
  case (Cons t ts)
  obtain d r m a where t: "t = (d, r, m, a)" by (cases t) auto
  obtain tw c2 sT fT where acc: "acc = (tw, c2, sT, fT)" by (cases acc) auto
  from Cons show ?case by (simp add: t acc Let_def Fprint_tw_def)
qed

lemma report_Some:
  assumes "report e estTitle st = (None, out)"
  shows "out = reportLines e estTitle st"
proof -
  from assms obtain tw2 c2 sT fT where
    rows: "reportRows e (heap st) (rangeTriples e (dbMap st)) ([Header, Dashes], 0, 0, 0) =
             (None, tw2, c2, sT, fT)"
    and out: "out = tw2 @ [Dashes, Total estTitle sT fT c2]"
    by (auto simp: report_def Fprint_tw_def split: option.splits prod.splits)
  from reportRows_Some[OF rows] out show ?thesis
    by (simp add: reportLines_def Let_def)
qed

lemma report_total:
  assumes tw: "\<And>tw l. twFail e tw l = None" and fl: "\<And>tw. flushFail e tw = None"
  shows "report e estTitle st = (None, reportLines e estTitle st)"
proof -
  obtain r tw2 c2 sT fT where
    rows: "reportRows e (heap st) (rangeTriples e (dbMap st)) ([Header, Dashes], 0, 0, 0) =
             (r, tw2, c2, sT, fT)"
    by (cases "reportRows e (heap st) (rangeTriples e (dbMap st)) ([Header, Dashes], 0, 0, 0)") auto
  with reportRows_total[of e "heap st" "rangeTriples e (dbMap st)" "([Header, Dashes], 0, 0, 0)"] tw
  have r: "r = None" by simp
  have "report e estTitle st = (None, tw2 @ [Dashes, Total estTitle sT fT c2])"
    by (simp add: report_def Fprint_tw_def tw fl rows r)
  with report_Some show ?thesis by metis
qed

lemma mset_concat_map:
  "mset (concat (map f xs)) = (\<Sum>x \<in># mset xs. mset (f x))"
  by (induction xs) simp_all

lemma mset_concat_map_cong:
  assumes "mset xs = mset ys" and "\<And>x. x \<in> set ys \<Longrightarrow> mset (f x) = mset (g x)"
  shows "mset (concat (map f xs)) = mset (concat (map g ys))"
proof -
  have "(\<Sum>x \<in># mset ys. mset (f x)) = (\<Sum>x \<in># mset ys. mset (g x))"
    using assms(2) by (intro arg_cong[where f = sum_mset] image_mset_cong) simp
  then show ?thesis by (simp add: mset_concat_map assms(1))
qed

lemma mset_rangeTriples:
  assumes "fair_range e"
  shows "mset (rangeTriples e toto) = mset (triples toto)"
proof -
  from assms have d: "mset (rangeDatabases e m) = mset m" for m by (simp add: fair_range_def)
  from assms have r: "mset (rangeRetentionPolicies e m) = mset m" for m by (simp add: fair_range_def)
  from assms have m: "mset (rangeMeasurements e m) = mset m" for m by (simp add: fair_range_def)
  show ?thesis
    unfolding rangeTriples_def triples_def
  proof (rule mset_concat_map_cong[OF d])
    fix x :: "string \<times> (string \<times> (string \<times> nat) list) list"
    obtain dn db where x: "x = (dn, db)" by (cases x)
    have "mset (concat (map (\<lambda>(rn, rp). map (\<lambda>(m, a). (dn, rn, m, a)) (rangeMeasurements e rp))
                  (rangeRetentionPolicies e db))) =
          mset (concat (map (\<lambda>(rn, rp). map (\<lambda>(m, a). (dn, rn, m, a)) rp) db))"
    proof (rule mset_concat_map_cong[OF r])
      fix y :: "string \<times> (string \<times> nat) list"
      obtain rn rp where y: "y = (rn, rp)" by (cases y)
      show "mset (case y of (rn, rp) \<Rightarrow> map (\<lambda>(m, a). (dn, rn, m, a)) (rangeMeasurements e rp)) =
            mset (case y of (rn, rp) \<Rightarrow> map (\<lambda>(m, a). (dn, rn, m, a)) rp)"
        by (simp add: y m del: mset_map) (simp only: mset_map m)
    qed
    then show "mset (case x of (d, db) \<Rightarrow>
                 concat (map (\<lambda>(r, rp). map (\<lambda>(m, a). (d, r, m, a)) (rangeMeasurements e rp))
                           (rangeRetentionPolicies e db))) =
               mset (case x of (d, db) \<Rightarrow>
                 concat (map (\<lambda>(r, rp). map (\<lambda>(m, a). (d, r, m, a)) rp) db))"
      by (simp add: x)
  qed
qed

lemma sum_list_mset_cong:
  fixes f :: "'a \<Rightarrow> 64 word"
  assumes "mset xs = mset ys"
  shows "sum_list (map f xs) = sum_list (map f ys)"
proof -
  have "sum_list (map f xs) = sum_mset (image_mset f (mset xs))"
    by (simp add: sum_mset_sum_list [symmetric])
  also have "\<dots> = sum_mset (image_mset f (mset ys))" by (simp add: assms)
  also have "\<dots> = sum_list (map f ys)" by (simp add: sum_mset_sum_list [symmetric])
  finally show ?thesis .
qed

text \<open>
  C5. A report that is written without error is the header, the dashes, one row for
  each entry of the index that the \<open>range\<close> loops visit, the dashes and the total row.
  A row shows the series count and the field count of its entry and their product;
  the total row shows the sum of the series counts, the sum of the field counts and
  the sum of the products, each taken over the visited entries, in 64-bit arithmetic.
  The loops visit every entry of the index once, whatever their order, so the three
  totals are the sums over all entries of the index. When no write fails the report
  is written.
\<close>

theorem report_rows_and_totals:
  "(report e estTitle st = (None, out) \<longrightarrow>
      out = [Header, Dashes] @ map (rowOf e (heap st)) (rangeTriples e (dbMap st)) @
            [Dashes,
             Total estTitle
               (sum_list (map (seriesN e (heap st)) (rangeTriples e (dbMap st))))
               (sum_list (map (fieldsN e (heap st)) (rangeTriples e (dbMap st))))
               (sum_list (map (\<lambda>t. seriesN e (heap st) t * fieldsN e (heap st) t)
                            (rangeTriples e (dbMap st))))]) \<and>
   (fair_range e \<longrightarrow>
      mset (rangeTriples e (dbMap st)) = mset (triples (dbMap st)) \<and>
      sum_list (map (seriesN e (heap st)) (rangeTriples e (dbMap st))) =
        sum_list (map (seriesN e (heap st)) (triples (dbMap st))) \<and>
      sum_list (map (fieldsN e (heap st)) (rangeTriples e (dbMap st))) =
        sum_list (map (fieldsN e (heap st)) (triples (dbMap st))) \<and>
      sum_list (map (\<lambda>t. seriesN e (heap st) t * fieldsN e (heap st) t) (rangeTriples e (dbMap st))) =
        sum_list (map (\<lambda>t. seriesN e (heap st) t * fieldsN e (heap st) t) (triples (dbMap st)))) \<and>
   ((\<forall>tw l. twFail e tw l = None) \<and> (\<forall>tw. flushFail e tw = None) \<longrightarrow>
      (\<exists>out'. report e estTitle st = (None, out'))) \<and>
   rowOf e (heap st) (d, r, m, a) =
     Row d r m (Counter_Count e (series (heap st ! a))) (Counter_Count e (fields_counter (heap st ! a)))
       (Counter_Count e (series (heap st ! a)) * Counter_Count e (fields_counter (heap st ! a)))"
proof -
  have 1: "report e estTitle st = (None, out) \<longrightarrow>
      out = [Header, Dashes] @ map (rowOf e (heap st)) (rangeTriples e (dbMap st)) @
            [Dashes,
             Total estTitle
               (sum_list (map (seriesN e (heap st)) (rangeTriples e (dbMap st))))
               (sum_list (map (fieldsN e (heap st)) (rangeTriples e (dbMap st))))
               (sum_list (map (\<lambda>t. seriesN e (heap st) t * fieldsN e (heap st) t)
                            (rangeTriples e (dbMap st))))]"
  proof
    assume "report e estTitle st = (None, out)"
    from report_Some[OF this] show "out = [Header, Dashes] @ map (rowOf e (heap st)) (rangeTriples e (dbMap st)) @
            [Dashes,
             Total estTitle
               (sum_list (map (seriesN e (heap st)) (rangeTriples e (dbMap st))))
               (sum_list (map (fieldsN e (heap st)) (rangeTriples e (dbMap st))))
               (sum_list (map (\<lambda>t. seriesN e (heap st) t * fieldsN e (heap st) t)
                            (rangeTriples e (dbMap st))))]"
      by (simp add: reportLines_def Let_def)
  qed
  have 2: "fair_range e \<longrightarrow>
      mset (rangeTriples e (dbMap st)) = mset (triples (dbMap st)) \<and>
      sum_list (map (seriesN e (heap st)) (rangeTriples e (dbMap st))) =
        sum_list (map (seriesN e (heap st)) (triples (dbMap st))) \<and>
      sum_list (map (fieldsN e (heap st)) (rangeTriples e (dbMap st))) =
        sum_list (map (fieldsN e (heap st)) (triples (dbMap st))) \<and>
      sum_list (map (\<lambda>t. seriesN e (heap st) t * fieldsN e (heap st) t) (rangeTriples e (dbMap st))) =
        sum_list (map (\<lambda>t. seriesN e (heap st) t * fieldsN e (heap st) t) (triples (dbMap st)))"
  proof
    assume "fair_range e"
    then have m: "mset (rangeTriples e (dbMap st)) = mset (triples (dbMap st))"
      by (rule mset_rangeTriples)
    from m sum_list_mset_cong[OF m] show
     "mset (rangeTriples e (dbMap st)) = mset (triples (dbMap st)) \<and>
      sum_list (map (seriesN e (heap st)) (rangeTriples e (dbMap st))) =
        sum_list (map (seriesN e (heap st)) (triples (dbMap st))) \<and>
      sum_list (map (fieldsN e (heap st)) (rangeTriples e (dbMap st))) =
        sum_list (map (fieldsN e (heap st)) (triples (dbMap st))) \<and>
      sum_list (map (\<lambda>t. seriesN e (heap st) t * fieldsN e (heap st) t) (rangeTriples e (dbMap st))) =
        sum_list (map (\<lambda>t. seriesN e (heap st) t * fieldsN e (heap st) t) (triples (dbMap st)))"
      by blast
  qed
  have 3: "(\<forall>tw l. twFail e tw l = None) \<and> (\<forall>tw. flushFail e tw = None) \<longrightarrow>
      (\<exists>out'. report e estTitle st = (None, out'))"
    using report_total[of e estTitle st] by blast
  have 4: "rowOf e (heap st) (d, r, m, a) =
     Row d r m (Counter_Count e (series (heap st ! a))) (Counter_Count e (fields_counter (heap st ! a)))
       (Counter_Count e (series (heap st ! a)) * Counter_Count e (fields_counter (heap st ! a)))"
    by (simp add: rowOf_def seriesN_def fieldsN_def)
  from 1 2 3 4 show ?thesis by blast
qed

text \<open>
  An instance with two entries, visited in the order of their insertion: the total of
  the products is 3, the product of the totals would be 6.
\<close>

theorem report_rows_and_totals_witness:
  "report (scenario [] []) []
     \<lparr>dbMap = [(''db0'', [(''autogen'', [(''cpu'', 0), (''mem'', 1)])])],
      heap = [\<lparr>fields_counter = ExactCounter {''value''},
               series = ExactCounter {''cpu,host=a#!~#value'', ''cpu,host=b#!~#value''}\<rparr>,
              \<lparr>fields_counter = ExactCounter {''used''},
               series = ExactCounter {''mem,host=a#!~#used''}\<rparr>]\<rparr> =
     (None, [Header, Dashes, Row ''db0'' ''autogen'' ''cpu'' 2 1 2,
             Row ''db0'' ''autogen'' ''mem'' 1 1 1, Dashes, Total [] 3 2 3]) \<and>
   fair_range (scenario [] []) \<and>
   mset (rangeTriples (scenario [] []) [(''db0'', [(''autogen'', [(''cpu'', 0), (''mem'', 1)])])]) =
     mset [(''db0'', ''autogen'', ''cpu'', 0), (''db0'', ''autogen'', ''mem'', 1)] \<and>
   (3 :: 64 word) \<noteq> 3 * 2"
proof -
  let ?e = "scenario [] []"
  let ?st = "\<lparr>dbMap = [(''db0'', [(''autogen'', [(''cpu'', 0), (''mem'', 1)])])],
      heap = [\<lparr>fields_counter = ExactCounter {''value''},
               series = ExactCounter {''cpu,host=a#!~#value'', ''cpu,host=b#!~#value''}\<rparr>,
              \<lparr>fields_counter = (ExactCounter {''used''} :: unit counter),
               series = ExactCounter {''mem,host=a#!~#used''}\<rparr>]\<rparr>"
  note T = report_rows_and_totals[where e = ?e and estTitle = "[]" and st = ?st]
  have nf: "(\<forall>tw l. twFail ?e tw l = None) \<and> (\<forall>tw. flushFail ?e tw = None)"
    by (simp add: scenario_def)
  have fr: "fair_range ?e" by (simp add: fair_range_def scenario_def)
  from T[THEN conjunct2, THEN conjunct2, THEN conjunct1, rule_format, OF nf]
  obtain out' where r: "report ?e [] ?st = (None, out')" by blast
  from T[where out = out', THEN conjunct1, rule_format, OF r]
  have o: "out' = [Header, Dashes, Row ''db0'' ''autogen'' ''cpu'' 2 1 2,
             Row ''db0'' ''autogen'' ''mem'' 1 1 1, Dashes, Total [] 3 2 3]"
    by (simp add: rangeTriples_def scenario_def rowOf_def seriesN_def fieldsN_def)
  from T[THEN conjunct2, THEN conjunct1, rule_format, OF fr, THEN conjunct1]
  have m: "mset (rangeTriples ?e [(''db0'', [(''autogen'', [(''cpu'', 0), (''mem'', 1)])])]) =
     mset [(''db0'', ''autogen'', ''cpu'', 0), (''db0'', ''autogen'', ''mem'', 1)]"
    by (simp add: triples_def)
  from r o fr m show ?thesis by simp
qed

section \<open>The order of the visits\<close>

lemma content_processKey:
  assumes "wf_store st"
  shows "content (processKey e fn db rp st key) = countKey e fn (db, rp, key) (content st)"
proof -
  obtain seriesKey field found where c: "bytes_Cut key keyFieldSeparator = (seriesKey, field, found)"
    by (cases "bytes_Cut key keyFieldSeparator") auto
  have "content (processKey e fn db rp st key) (d, r, m) = countKey e fn (db, rp, key) (content st) (d, r, m)"
    for d r m
  proof (cases "d \<noteq> db \<or> r \<noteq> rp \<or> m \<noteq> parseKey e seriesKey")
    case True
    from bucket_other[OF assms c True, of fn] True show ?thesis
      by (auto simp: content_def countKey_def c)
  next
    case False
    with bucket_same[OF assms c, of e fn db rp] show ?thesis
      by (simp add: content_def countKey_def c)
  qed
  then show ?thesis by (intro ext) (auto simp: split_paired_all)
qed

lemma wf_store_events:
  "wf_store st \<Longrightarrow> wf_store (foldl (\<lambda>st (db, rp, key). processKey e fn db rp st key) st evs)"
  by (induction evs arbitrary: st) (auto simp: wf_store_processKey)

lemma content_events:
  "wf_store st \<Longrightarrow>
     content (foldl (\<lambda>st (db, rp, key). processKey e fn db rp st key) st evs) =
     fold (countKey e fn) evs (content st)"
proof (induction evs arbitrary: st)
  case Nil
  show ?case by simp
next
  case (Cons ev evs)
  obtain db rp key where ev: "ev = (db, rp, key)" by (cases ev) auto
  from Cons.IH[OF wf_store_processKey[OF Cons.prems, of e fn db rp key]]
  show ?case by (simp add: ev content_processKey[OF Cons.prems])
qed

lemma Counter_Add_commute:
  "adds_commute e \<Longrightarrow> Counter_Add e x (Counter_Add e y c) = Counter_Add e y (Counter_Add e x c)"
  by (cases c) (auto simp: adds_commute_def)

lemma countKey_at:
  assumes "bytes_Cut key keyFieldSeparator = (sk, f, fd)" and "t = (db, rp, parseKey e sk)"
  shows "countKey e fn (db, rp, key) c =
           c(t \<mapsto> \<lparr>fields_counter = Counter_Add e f (case c t of None \<Rightarrow> fn | Some b \<Rightarrow> fields_counter b),
                   series = Counter_Add e key (case c t of None \<Rightarrow> fn | Some b \<Rightarrow> series b)\<rparr>)"
  using assms by (simp add: countKey_def)

lemma countKey_commute:
  assumes "adds_commute e"
  shows "countKey e fn ev1 (countKey e fn ev2 c) = countKey e fn ev2 (countKey e fn ev1 c)"
proof -
  obtain db1 rp1 key1 where ev1: "ev1 = (db1, rp1, key1)" by (cases ev1) auto
  obtain db2 rp2 key2 where ev2: "ev2 = (db2, rp2, key2)" by (cases ev2) auto
  obtain sk1 f1 fd1 where c1: "bytes_Cut key1 keyFieldSeparator = (sk1, f1, fd1)"
    by (cases "bytes_Cut key1 keyFieldSeparator") auto
  obtain sk2 f2 fd2 where c2: "bytes_Cut key2 keyFieldSeparator = (sk2, f2, fd2)"
    by (cases "bytes_Cut key2 keyFieldSeparator") auto
  define t1 where "t1 = (db1, rp1, parseKey e sk1)"
  define t2 where "t2 = (db2, rp2, parseKey e sk2)"
  note k1 = countKey_at[OF c1 t1_def, of fn]
  note k2 = countKey_at[OF c2 t2_def, of fn]
  note cc = Counter_Add_commute[OF assms]
  show ?thesis
  proof (cases "t1 = t2")
    case True
    then show ?thesis
      unfolding ev1 ev2 k1 k2 by (simp add: cc[of f1 f2] cc[of key1 key2])
  next
    case False
    then have "t2 \<noteq> t1" by simp
    with False show ?thesis
      unfolding ev1 ev2 k1 k2 by (simp add: fun_upd_twist)
  qed
qed

lemma fold_countKey_perm:
  assumes "adds_commute e" and "mset evs1 = mset evs2"
  shows "fold (countKey e fn) evs1 c = fold (countKey e fn) evs2 c"
proof -
  have "fold (countKey e fn) evs1 = fold (countKey e fn) evs2"
    by (rule fold_multiset_equiv[OF _ assms(2)]) (simp add: fun_eq_iff countKey_commute[OF assms(1)])
  then show ?thesis by simp
qed

lemma foldl_concat_map:
  "foldl f a (concat (map g xs)) = foldl (\<lambda>a x. foldl f a (g x)) a xs"
  by (induction xs arbitrary: a) simp_all

lemma countFile_locKeys:
  "countFile e fn st loc = foldl (\<lambda>st (db, rp, key). processKey e fn db rp st key) st (locKeys e loc)"
proof -
  obtain db rp sid path where loc: "loc = (db, rp, sid, path)" by (cases loc) auto
  have "foldl (\<lambda>st (db, rp, key). processKey e fn db rp st key) st (map (\<lambda>key. (db, rp, key)) ks) =
        foldl (processKey e fn db rp) st ks" for ks
    by (induction ks arbitrary: st) simp_all
  then show ?thesis by (simp add: loc countFile_def locKeys_def)
qed

lemma processShards_shardKeys:
  assumes "walks_succeed e paths"
  shows "fst (processShards e fn paths ps) = None \<and>
         store (snd (processShards e fn paths ps)) =
           foldl (\<lambda>st (db, rp, key). processKey e fn db rp st key) (store ps) (shardKeys e paths)"
  using assms
proof (induction paths arbitrary: ps)
  case Nil
  show ?case by (simp add: shardKeys_def)
next
  case (Cons p paths)
  from Cons.prems obtain locs where l: "shardFiles e p = Inr locs"
    and rest: "walks_succeed e paths"
    by (auto simp: walks_succeed_def)
  obtain r ps1 where w: "WalkShardDirs e p (processFile e fn) ps = (r, ps1)"
    by (cases "WalkShardDirs e p (processFile e fn) ps")
  from w l have f: "forEachFile (processFile e fn) locs ps = (r, ps1)"
    by (simp add: WalkShardDirs_def)
  from f forEachFile_nil[of e fn locs ps] have r: "r = None" by simp
  from f forEachFile_countFile[of e fn locs ps]
  have s1: "store ps1 = foldl (countFile e fn) (store ps) locs" by simp
  have "foldl (countFile e fn) (store ps) locs =
        foldl (\<lambda>st (db, rp, key). processKey e fn db rp st key) (store ps) (concat (map (locKeys e) locs))"
    by (simp add: foldl_concat_map countFile_locKeys [abs_def])
  with s1 have s2: "store ps1 =
      foldl (\<lambda>st (db, rp, key). processKey e fn db rp st key) (store ps) (concat (map (locKeys e) (shardLocs e p)))"
    by (simp add: shardLocs_def l)
  have k: "shardKeys e (p # paths) = concat (map (locKeys e) (shardLocs e p)) @ shardKeys e paths"
    by (simp add: shardKeys_def)
  from Cons.IH[OF rest, of ps1] show ?case
    by (simp add: w r k s2)
qed

lemma mset_shardKeys:
  "mset paths1 = mset paths2 \<Longrightarrow> mset (shardKeys e paths1) = mset (shardKeys e paths2)"
  unfolding shardKeys_def by (rule mset_concat_map_cong) simp_all

lemma walks_succeed_perm:
  "mset paths1 = mset paths2 \<Longrightarrow> walks_succeed e paths1 = walks_succeed e paths2"
  by (auto simp: walks_succeed_def dest: mset_eq_setD)

lemma content_processShards_perm:
  assumes "adds_commute e" and "walks_succeed e paths1" and "mset paths1 = mset paths2"
    and "wf_store (store ps)"
  shows "content (store (snd (processShards e fn paths1 ps))) =
         content (store (snd (processShards e fn paths2 ps)))"
proof -
  let ?pk = "\<lambda>st (db, rp, key). processKey e fn db rp st key"
  from walks_succeed_perm[OF assms(3), of e] assms(2) have w2: "walks_succeed e paths2" by blast
  have 1: "store (snd (processShards e fn paths1 ps)) = foldl ?pk (store ps) (shardKeys e paths1)"
    using processShards_shardKeys[OF assms(2), of fn ps] by blast
  have 2: "store (snd (processShards e fn paths2 ps)) = foldl ?pk (store ps) (shardKeys e paths2)"
    using processShards_shardKeys[OF w2, of fn ps] by blast
  have "content (foldl ?pk (store ps) (shardKeys e paths1)) =
        fold (countKey e fn) (shardKeys e paths1) (content (store ps))"
    by (rule content_events[OF assms(4)])
  also have "\<dots> = fold (countKey e fn) (shardKeys e paths2) (content (store ps))"
    by (rule fold_countKey_perm[OF assms(1) mset_shardKeys[OF assms(3)]])
  also have "\<dots> = content (foldl ?pk (store ps) (shardKeys e paths2))"
    by (rule content_events[OF assms(4), symmetric])
  finally show ?thesis by (simp only: 1 2)
qed

lemma wf_store_processShards:
  assumes "walks_succeed e paths" and "wf_store (store ps)"
  shows "wf_store (store (snd (processShards e fn paths ps)))"
proof -
  have "store (snd (processShards e fn paths ps)) =
        foldl (\<lambda>st (db, rp, key). processKey e fn db rp st key) (store ps) (shardKeys e paths)"
    using processShards_shardKeys[OF assms(1), of fn ps] by blast
  then show ?thesis by (simp only: wf_store_events[OF assms(2)])
qed

lemma set_indexEntries:
  assumes "wf_store st"
  shows "set (indexEntries st) = {(t, b). content st t = Some b}"
proof -
  from assms have w: "wf_index (dbMap st)"
    and b: "\<And>d r m a. lookupAddr (dbMap st) d r m = Some a \<Longrightarrow> a < length (heap st)"
    unfolding wf_store_iff by blast+
  have "((d, r, m), x) \<in> set (indexEntries st) \<longleftrightarrow> content st (d, r, m) = Some x" for d r m x
  proof
    assume "((d, r, m), x) \<in> set (indexEntries st)"
    then obtain a where "(d, r, m, a) \<in> set (triples (dbMap st))" and x: "x = heap st ! a"
      by (auto simp: indexEntries_def)
    then have l: "lookupAddr (dbMap st) d r m = Some a" by (simp add: triples_iff[OF w])
    from b[OF l] l x show "content st (d, r, m) = Some x"
      by (simp add: content_def bucket_def)
  next
    assume "content st (d, r, m) = Some x"
    then obtain a where l: "lookupAddr (dbMap st) d r m = Some a" and x: "x = heap st ! a"
      by (auto simp: content_def bucket_def split: option.splits if_splits)
    from l have "(d, r, m, a) \<in> set (triples (dbMap st))" by (simp add: triples_iff[OF w])
    with x show "((d, r, m), x) \<in> set (indexEntries st)"
      by (force simp: indexEntries_def)
  qed
  then show ?thesis by (auto simp: split_paired_all)
qed

lemma distinct_indexEntries:
  assumes "wf_store st"
  shows "distinct (indexEntries st)"
proof -
  from assms have w: "wf_index (dbMap st)" unfolding wf_store_iff by blast
  have d: "distinct (triples (dbMap st))" using w by (rule distinct_triples)
  have "inj_on (\<lambda>(d, r, m, a). ((d, r, m), heap st ! a)) (set (triples (dbMap st)))"
  proof (rule inj_onI)
    fix x y
    assume x: "x \<in> set (triples (dbMap st))" and y: "y \<in> set (triples (dbMap st))"
      and e: "(case x of (d, r, m, a) \<Rightarrow> ((d, r, m), heap st ! a)) =
              (case y of (d, r, m, a) \<Rightarrow> ((d, r, m), heap st ! a))"
    obtain d r m a where xx: "x = (d, r, m, a)" by (cases x) auto
    obtain d' r' m' a' where yy: "y = (d', r', m', a')" by (cases y) auto
    from e xx yy have t: "d = d'" "r = r'" "m = m'" by simp_all
    from x xx have "lookupAddr (dbMap st) d r m = Some a" by (simp add: triples_iff[OF w])
    moreover from y yy t have "lookupAddr (dbMap st) d r m = Some a'" by (simp add: triples_iff[OF w])
    ultimately have "a = a'" by simp
    with t xx yy show "x = y" by simp
  qed
  with d show ?thesis by (simp add: indexEntries_def distinct_map)
qed

lemma mset_indexEntries:
  assumes "wf_store st1" and "wf_store st2" and "content st1 = content st2"
  shows "mset (indexEntries st1) = mset (indexEntries st2)"
proof -
  have "set (indexEntries st1) = set (indexEntries st2)"
    by (simp add: set_indexEntries[OF assms(1)] set_indexEntries[OF assms(2)] assms(3))
  with distinct_indexEntries[OF assms(1)] distinct_indexEntries[OF assms(2)]
  show ?thesis by (simp add: set_eq_iff_mset_eq_distinct)
qed

lemma rowOf_entries:
  "map (rowOf e (heap st)) (triples (dbMap st)) = map (entryRow e) (indexEntries st)"
  by (auto simp: indexEntries_def rowOf_def seriesN_def fieldsN_def entryRow_def)

lemma seriesN_entries:
  "map (seriesN e (heap st)) (triples (dbMap st)) =
     map (\<lambda>x. Counter_Count e (series (snd x))) (indexEntries st)"
  by (auto simp: indexEntries_def seriesN_def)

lemma fieldsN_entries:
  "map (fieldsN e (heap st)) (triples (dbMap st)) =
     map (\<lambda>x. Counter_Count e (fields_counter (snd x))) (indexEntries st)"
  by (auto simp: indexEntries_def fieldsN_def)

lemma productN_entries:
  "map (\<lambda>t. seriesN e (heap st) t * fieldsN e (heap st) t) (triples (dbMap st)) =
     map (\<lambda>x. Counter_Count e (series (snd x)) * Counter_Count e (fields_counter (snd x))) (indexEntries st)"
  by (auto simp: indexEntries_def seriesN_def fieldsN_def)

lemma same_inputs_Count: "same_inputs e1 e2 \<Longrightarrow> Counter_Count e1 c = Counter_Count e2 c"
  by (cases c) (simp_all add: same_inputs_def)

lemma same_inputs_Add: "same_inputs e1 e2 \<Longrightarrow> Counter_Add e1 item c = Counter_Add e2 item c"
  by (cases c) (simp_all add: same_inputs_def)

lemma same_inputs_entryRow: "same_inputs e1 e2 \<Longrightarrow> entryRow e1 x = entryRow e2 x"
  by (simp add: entryRow_def same_inputs_Count[of e1 e2] split: prod.splits)

lemma same_inputs_processKey:
  "same_inputs e1 e2 \<Longrightarrow> processKey e1 fn db rp st key = processKey e2 fn db rp st key"
  by (simp add: processKey_def series_Add_def fields_Add_def same_inputs_Add[of e1 e2]
      split: prod.splits) (simp add: same_inputs_def)

lemma same_inputs_processFile:
  assumes "same_inputs e1 e2"
  shows "processFile e1 fn loc ps = processFile e2 fn loc ps"
proof -
  have k: "processKey e1 fn db rp = processKey e2 fn db rp" for db rp
    by (intro ext) (rule same_inputs_processKey[OF assms])
  have w: "warn e1 d p = warn e2 d p" for d p
    using assms by (simp add: warn_def Fprintf_Stderr_def same_inputs_def)
  from assms have o: "openTSM e1 = openTSM e2" by (simp add: same_inputs_def)
  show ?thesis
    by (simp add: processFile_def k w o Let_def split: prod.splits tsm_file.splits option.splits)
qed

lemma same_inputs_processShards:
  assumes "same_inputs e1 e2"
  shows "processShards e1 fn paths ps = processShards e2 fn paths ps"
proof (induction paths arbitrary: ps)
  case Nil
  show ?case by simp
next
  case (Cons p paths)
  have f: "processFile e1 fn = processFile e2 fn"
    by (intro ext) (rule same_inputs_processFile[OF assms])
  have w: "WalkShardDirs e1 p (processFile e1 fn) ps = WalkShardDirs e2 p (processFile e2 fn) ps"
    using assms by (simp add: WalkShardDirs_def f same_inputs_def)
  have x: "warn e1 d q = warn e2 d q" for d q
    using assms by (simp add: warn_def Fprintf_Stderr_def same_inputs_def)
  show ?case by (simp add: w x Cons.IH split: prod.splits option.splits)
qed

lemma same_inputs_discover:
  "same_inputs e1 e2 \<Longrightarrow> discover e1 = discover e2"
  by (intro ext) (simp add: discover_def same_inputs_def split: option.splits prod.splits)

lemma reportLines_perm:
  assumes f1: "fair_range e1" and f2: "fair_range e2" and si: "same_inputs e1 e2"
    and w1: "wf_store st1" and w2: "wf_store st2" and c: "content st1 = content st2"
  shows "\<exists>rows1 rows2 total.
           reportLines e1 estTitle st1 = [Header, Dashes] @ rows1 @ [Dashes, total] \<and>
           reportLines e2 estTitle st2 = [Header, Dashes] @ rows2 @ [Dashes, total] \<and>
           mset rows1 = mset rows2"
proof -
  note m = mset_indexEntries[OF w1 w2 c]
  have t1: "mset (rangeTriples e1 (dbMap st1)) = mset (triples (dbMap st1))"
    using f1 by (rule mset_rangeTriples)
  have t2: "mset (rangeTriples e2 (dbMap st2)) = mset (triples (dbMap st2))"
    using f2 by (rule mset_rangeTriples)
  have cnt: "Counter_Count e1 = Counter_Count e2"
    by (intro ext) (rule same_inputs_Count[OF si])
  have row: "entryRow e1 = entryRow e2"
    by (intro ext) (rule same_inputs_entryRow[OF si])
  let ?rows1 = "map (rowOf e1 (heap st1)) (rangeTriples e1 (dbMap st1))"
  let ?rows2 = "map (rowOf e2 (heap st2)) (rangeTriples e2 (dbMap st2))"
  have "mset ?rows1 = mset (map (rowOf e1 (heap st1)) (triples (dbMap st1)))"
    by (simp add: t1)
  also have "\<dots> = mset (map (entryRow e1) (indexEntries st1))" by (simp only: rowOf_entries)
  also have "\<dots> = mset (map (entryRow e2) (indexEntries st2))" by (simp add: m row)
  also have "\<dots> = mset (map (rowOf e2 (heap st2)) (triples (dbMap st2)))" by (simp only: rowOf_entries)
  also have "\<dots> = mset ?rows2" by (simp add: t2)
  finally have rows: "mset ?rows1 = mset ?rows2" .
  have s: "sum_list (map (seriesN e1 (heap st1)) (rangeTriples e1 (dbMap st1))) =
           sum_list (map (seriesN e2 (heap st2)) (rangeTriples e2 (dbMap st2)))"
    by (simp only: sum_list_mset_cong[OF t1] sum_list_mset_cong[OF t2] seriesN_entries cnt
        sum_list_mset_cong[OF m])
  have f: "sum_list (map (fieldsN e1 (heap st1)) (rangeTriples e1 (dbMap st1))) =
           sum_list (map (fieldsN e2 (heap st2)) (rangeTriples e2 (dbMap st2)))"
    by (simp only: sum_list_mset_cong[OF t1] sum_list_mset_cong[OF t2] fieldsN_entries cnt
        sum_list_mset_cong[OF m])
  have p: "sum_list (map (\<lambda>t. seriesN e1 (heap st1) t * fieldsN e1 (heap st1) t) (rangeTriples e1 (dbMap st1))) =
           sum_list (map (\<lambda>t. seriesN e2 (heap st2) t * fieldsN e2 (heap st2) t) (rangeTriples e2 (dbMap st2)))"
    by (simp only: sum_list_mset_cong[OF t1] sum_list_mset_cong[OF t2] productN_entries cnt
        sum_list_mset_cong[OF m])
  show ?thesis
    using rows by (simp add: reportLines_def Let_def s f p)
qed

lemma Run_ok:
  assumes "flag_db_path fl \<noteq> []"
    and "Walk (discover e) (flag_db_path fl) (fsys e (flag_db_path fl)) (shardPaths cmd0) = (None, sp)"
    and "sp \<noteq> []"
    and "walks_succeed e (map snd (rangeShardPaths e sp))"
    and "table_writes_succeed e"
  shows "fst (Run e cmd0 fl) = None \<and>
         index (snd (Run e cmd0 fl)) =
           store (snd (processShards e (if flag_exact fl then NewExactCounter else NewHLLCounter e)
                         (map snd (rangeShardPaths e sp))
                         \<lparr>store = \<lparr>dbMap = [], heap = []\<rparr>, stderr = []\<rparr>)) \<and>
         stdout_out (snd (Run e cmd0 fl)) =
           reportLines e (if flag_exact fl then [] else '' (estimated)'') (index (snd (Run e cmd0 fl)))"
proof -
  let ?fn = "if flag_exact fl then NewExactCounter else NewHLLCounter e"
  let ?ps0 = "\<lparr>store = \<lparr>dbMap = [], heap = []\<rparr>, stderr = []\<rparr>"
  obtain r ps where p: "processShards e ?fn (map snd (rangeShardPaths e sp)) ?ps0 = (r, ps)"
    by (cases "processShards e ?fn (map snd (rangeShardPaths e sp)) ?ps0")
  with processShards_shardKeys[OF assms(4), of ?fn ?ps0] have r: "r = None" by simp
  from assms(5) have tw: "\<And>tw l. twFail e tw l = None" and fl: "\<And>tw. flushFail e tw = None"
    by (simp_all add: table_writes_succeed_def)
  note rep = report_total[OF tw fl]
  from assms(1,2,3) p r show ?thesis
    by (simp add: Run_def Let_def rep)
qed

section \<open>The concrete scenario\<close>

lemmas run_defs =
  Run_def NewCommand_def scenario_def scenarioFlags_def scenarioTree_def Walk_def discover_def
  Atoi_def digit_def Join_def Clean_def processFile_def WalkShardDirs_def processKey_def bytes_Cut_def
  keyFieldSeparator_def measurementName_def initFieldsAndSeries_def series_Add_def fields_Add_def
  NewExactCounter_def report_def rangeTriples_def Fprint_tw_def Fprintf_Stderr_def warn_def Let_def

lemma scenario_run_ab_c:
  "Run (scenario [''cpu,host=a#!~#value'', ''cpu,host=b#!~#value''] [''mem,host=a#!~#used''])
       (NewCommand (scenario [] [])) scenarioFlags =
   (None,
    \<lparr>command = \<lparr>dbPath = ''data'',
         shardPaths = [(1, ''data/db0/autogen/1''), (2, ''data/db0/autogen/2'')],
         exact = True, concurrency = 8\<rparr>,
     index = \<lparr>dbMap = [(''db0'', [(''autogen'', [(''cpu'', 0), (''mem'', 1)])])],
              heap = [\<lparr>fields_counter = ExactCounter {''value''},
                       series = ExactCounter {''cpu,host=a#!~#value'', ''cpu,host=b#!~#value''}\<rparr>,
                      \<lparr>fields_counter = ExactCounter {''used''},
                       series = ExactCounter {''mem,host=a#!~#used''}\<rparr>]\<rparr>,
     stderr_out = [],
     stdout_out = [Header, Dashes, Row ''db0'' ''autogen'' ''cpu'' 2 1 2,
                   Row ''db0'' ''autogen'' ''mem'' 1 1 1, Dashes, Total [] 3 2 3]\<rparr>)"
  by (simp add: run_defs insert_commute)

lemma scenario_run_c_ab:
  "Run (scenario [''mem,host=a#!~#used''] [''cpu,host=a#!~#value'', ''cpu,host=b#!~#value''])
       (NewCommand (scenario [] [])) scenarioFlags =
   (None,
    \<lparr>command = \<lparr>dbPath = ''data'',
         shardPaths = [(1, ''data/db0/autogen/1''), (2, ''data/db0/autogen/2'')],
         exact = True, concurrency = 8\<rparr>,
     index = \<lparr>dbMap = [(''db0'', [(''autogen'', [(''mem'', 0), (''cpu'', 1)])])],
              heap = [\<lparr>fields_counter = ExactCounter {''used''},
                       series = ExactCounter {''mem,host=a#!~#used''}\<rparr>,
                      \<lparr>fields_counter = ExactCounter {''value''},
                       series = ExactCounter {''cpu,host=a#!~#value'', ''cpu,host=b#!~#value''}\<rparr>]\<rparr>,
     stderr_out = [],
     stdout_out = [Header, Dashes, Row ''db0'' ''autogen'' ''mem'' 1 1 1,
                   Row ''db0'' ''autogen'' ''cpu'' 2 1 2, Dashes, Total [] 3 2 3]\<rparr>)"
  by (simp add: run_defs insert_commute)

lemma scenario_run_abc_abc:
  "Run (scenario [''cpu,host=a#!~#value'', ''cpu,host=b#!~#value'', ''mem,host=a#!~#used'']
                 [''cpu,host=a#!~#value'', ''cpu,host=b#!~#value'', ''mem,host=a#!~#used''])
       (NewCommand (scenario [] [])) scenarioFlags =
   (None,
    \<lparr>command = \<lparr>dbPath = ''data'',
         shardPaths = [(1, ''data/db0/autogen/1''), (2, ''data/db0/autogen/2'')],
         exact = True, concurrency = 8\<rparr>,
     index = \<lparr>dbMap = [(''db0'', [(''autogen'', [(''cpu'', 0), (''mem'', 1)])])],
              heap = [\<lparr>fields_counter = ExactCounter {''value''},
                       series = ExactCounter {''cpu,host=a#!~#value'', ''cpu,host=b#!~#value''}\<rparr>,
                      \<lparr>fields_counter = ExactCounter {''used''},
                       series = ExactCounter {''mem,host=a#!~#used''}\<rparr>]\<rparr>,
     stderr_out = [],
     stdout_out = [Header, Dashes, Row ''db0'' ''autogen'' ''cpu'' 2 1 2,
                   Row ''db0'' ''autogen'' ''mem'' 1 1 1, Dashes, Total [] 3 2 3]\<rparr>)"
  by (simp add: run_defs insert_commute)

text \<open>
  C4. Two shards of \<open>db0\<close>/\<open>autogen\<close>, one TSM file each, exact counters. Whether the
  two \<open>cpu\<close> keys are in the first file and the \<open>mem\<close> key in the second, or the other
  way round, or all three keys in both files, the run returns no error and reports
  \<open>cpu\<close> with 2 series, 1 field and 2 combined, \<open>mem\<close> with 1, 1 and 1, and the totals
  3, 2 and 3. The scenario ranges over its maps in the order of insertion, so the
  rows come in the order in which the measurements were first seen.
\<close>

theorem concrete_scenario:
  "(let (err, out) = Run (scenario [''cpu,host=a#!~#value'', ''cpu,host=b#!~#value''] [''mem,host=a#!~#used''])
                       (NewCommand (scenario [] [])) scenarioFlags
    in err = None \<and>
       stdout_out out = [Header, Dashes, Row ''db0'' ''autogen'' ''cpu'' 2 1 2,
                         Row ''db0'' ''autogen'' ''mem'' 1 1 1, Dashes, Total [] 3 2 3]) \<and>
   (let (err, out) = Run (scenario [''mem,host=a#!~#used''] [''cpu,host=a#!~#value'', ''cpu,host=b#!~#value''])
                       (NewCommand (scenario [] [])) scenarioFlags
    in err = None \<and>
       stdout_out out = [Header, Dashes, Row ''db0'' ''autogen'' ''mem'' 1 1 1,
                         Row ''db0'' ''autogen'' ''cpu'' 2 1 2, Dashes, Total [] 3 2 3]) \<and>
   (let (err, out) = Run (scenario [''cpu,host=a#!~#value'', ''cpu,host=b#!~#value'', ''mem,host=a#!~#used'']
                           [''cpu,host=a#!~#value'', ''cpu,host=b#!~#value'', ''mem,host=a#!~#used''])
                       (NewCommand (scenario [] [])) scenarioFlags
    in err = None \<and>
       stdout_out out = [Header, Dashes, Row ''db0'' ''autogen'' ''cpu'' 2 1 2,
                         Row ''db0'' ''autogen'' ''mem'' 1 1 1, Dashes, Total [] 3 2 3])"
  by (simp only: scenario_run_ab_c scenario_run_c_ab scenario_run_abc_abc Let_def prod.case
      outcome.simps simp_thms)

theorem concrete_scenario_witness:
  "fst (Run (scenario [''cpu,host=a#!~#value'', ''cpu,host=b#!~#value''] [''mem,host=a#!~#used''])
          (NewCommand (scenario [] [])) scenarioFlags) = None \<and>
   last (stdout_out (snd (Run (scenario [''cpu,host=a#!~#value'', ''cpu,host=b#!~#value''] [''mem,host=a#!~#used''])
          (NewCommand (scenario [] [])) scenarioFlags))) = Total [] 3 2 3"
  using concrete_scenario by (simp add: Let_def split: prod.splits)

section \<open>The concurrency flag\<close>

lemma scenario_walk:
  "Walk (discover (scenario ks1 ks2)) ''data'' (fsys (scenario ks1 ks2) ''data'') [] =
     (None, [(1, ''data/db0/autogen/1''), (2, ''data/db0/autogen/2'')])"
  by (simp add: run_defs)

lemma scenario_fair: "fair_range (scenario ks1 ks2)"
  by (simp add: fair_range_def scenario_def)

lemma reversedScenario_fair: "fair_range (reversedScenario ks1 ks2)"
  by (simp add: fair_range_def reversedScenario_def scenario_def)

lemma reversedScenario_same_inputs: "same_inputs (scenario ks1 ks2) (reversedScenario ks1 ks2)"
  by (simp add: same_inputs_def reversedScenario_def)

lemma scenario_adds_commute: "adds_commute (scenario ks1 ks2)"
  by (simp add: adds_commute_def scenario_def)

lemma scenario_table_writes_succeed: "table_writes_succeed (scenario ks1 ks2)"
  by (simp add: table_writes_succeed_def scenario_def)

lemma scenario_walks_succeed: "walks_succeed (scenario ks1 ks2) paths"
  by (simp add: walks_succeed_def scenario_def)

lemma reversedScenario_run:
  "stdout_out (snd (Run (reversedScenario [''cpu,host=a#!~#value'', ''cpu,host=b#!~#value'']
                                           [''mem,host=a#!~#used''])
                        (NewCommand (scenario [] [])) (scenarioFlags\<lparr>flag_c := 64\<rparr>))) =
     [Header, Dashes, Row ''db0'' ''autogen'' ''mem'' 1 1 1,
      Row ''db0'' ''autogen'' ''cpu'' 2 1 2, Dashes, Total [] 3 2 3]"
  by (simp add: reversedScenario_def run_defs insert_commute)

lemma scenario_run_c1:
  "stdout_out (snd (Run (scenario [''cpu,host=a#!~#value'', ''cpu,host=b#!~#value'']
                                  [''mem,host=a#!~#used''])
                        (NewCommand (scenario [] [])) (scenarioFlags\<lparr>flag_c := 1\<rparr>))) =
     [Header, Dashes, Row ''db0'' ''autogen'' ''cpu'' 2 1 2,
      Row ''db0'' ''autogen'' ''mem'' 1 1 1, Dashes, Total [] 3 2 3]"
  by (simp add: run_defs insert_commute)

text \<open>
  C9, as amended. \<open>Run\<close> stores the value of \<open>-c\<close> in the field \<open>concurrency\<close> and never reads it.
  With everything else the same, the order in which the maps are ranged over
  included, two runs that differ only in \<open>-c\<close> return the same error, leave the same
  index and write the same to standard error and standard output, and the commands
  they leave differ in that field only; the value the field had before the run does
  not matter either.

  The order in which Go ranges over a map is not fixed, so two runs may differ in
  it. Let two runs have the same directory tree, files, counters and flags but for
  \<open>-c\<close>, each ranging over its maps in an order of its own; let the discovery
  succeed and find a shard, every shard walk succeed, every write of the table
  succeed, and adding to a sketch commute. Then both runs return no error, their
  final indexes hold the same counters for the same
  (database, retention policy, measurement) triples, and both print the header, the
  same rows up to their order, and the same total row.
\<close>

theorem concurrency_has_no_effect:
  "(fst (Run e cmd0 (fl\<lparr>flag_c := c1\<rparr>)) = fst (Run e cmd0 (fl\<lparr>flag_c := c2\<rparr>)) \<and>
    index (snd (Run e cmd0 (fl\<lparr>flag_c := c1\<rparr>))) = index (snd (Run e cmd0 (fl\<lparr>flag_c := c2\<rparr>))) \<and>
    stderr_out (snd (Run e cmd0 (fl\<lparr>flag_c := c1\<rparr>))) = stderr_out (snd (Run e cmd0 (fl\<lparr>flag_c := c2\<rparr>))) \<and>
    stdout_out (snd (Run e cmd0 (fl\<lparr>flag_c := c1\<rparr>))) = stdout_out (snd (Run e cmd0 (fl\<lparr>flag_c := c2\<rparr>))) \<and>
    (command (snd (Run e cmd0 (fl\<lparr>flag_c := c1\<rparr>))))\<lparr>concurrency := c2\<rparr> =
      command (snd (Run e cmd0 (fl\<lparr>flag_c := c2\<rparr>))) \<and>
    Run e (cmd0\<lparr>concurrency := c1\<rparr>) fl = Run e cmd0 fl) \<and>
   (same_inputs e e' \<and> fair_range e \<and> fair_range e' \<and> adds_commute e \<and>
    table_writes_succeed e \<and> flag_db_path fl \<noteq> [] \<and>
    Walk (discover e) (flag_db_path fl) (fsys e (flag_db_path fl)) (shardPaths cmd0) = (None, sp) \<and>
    sp \<noteq> [] \<and> walks_succeed e (map snd sp) \<longrightarrow>
      fst (Run e cmd0 (fl\<lparr>flag_c := c1\<rparr>)) = None \<and>
      fst (Run e' cmd0 (fl\<lparr>flag_c := c2\<rparr>)) = None \<and>
      content (index (snd (Run e cmd0 (fl\<lparr>flag_c := c1\<rparr>)))) =
        content (index (snd (Run e' cmd0 (fl\<lparr>flag_c := c2\<rparr>)))) \<and>
      (\<exists>rows1 rows2 total.
         stdout_out (snd (Run e cmd0 (fl\<lparr>flag_c := c1\<rparr>))) = [Header, Dashes] @ rows1 @ [Dashes, total] \<and>
         stdout_out (snd (Run e' cmd0 (fl\<lparr>flag_c := c2\<rparr>))) = [Header, Dashes] @ rows2 @ [Dashes, total] \<and>
         mset rows1 = mset rows2))"
proof (intro conjI impI)
  assume h: "same_inputs e e' \<and> fair_range e \<and> fair_range e' \<and> adds_commute e \<and>
    table_writes_succeed e \<and> flag_db_path fl \<noteq> [] \<and>
    Walk (discover e) (flag_db_path fl) (fsys e (flag_db_path fl)) (shardPaths cmd0) = (None, sp) \<and>
    sp \<noteq> [] \<and> walks_succeed e (map snd sp)"
  let ?fl1 = "fl\<lparr>flag_c := c1\<rparr>" and ?fl2 = "fl\<lparr>flag_c := c2\<rparr>"
  let ?fn = "if flag_exact fl then NewExactCounter else NewHLLCounter e"
  let ?ps0 = "\<lparr>store = \<lparr>dbMap = [], heap = []\<rparr>, stderr = []\<rparr>"
  let ?paths1 = "map snd (rangeShardPaths e sp)" and ?paths2 = "map snd (rangeShardPaths e' sp)"
  let ?title = "if flag_exact fl then [] else '' (estimated)''"
  from h have si: "same_inputs e e'" and f1: "fair_range e" and f2: "fair_range e'"
    and ac: "adds_commute e" and tw1: "table_writes_succeed e" and db: "flag_db_path fl \<noteq> []"
    and wk1: "Walk (discover e) (flag_db_path fl) (fsys e (flag_db_path fl)) (shardPaths cmd0) = (None, sp)"
    and ne: "sp \<noteq> []" and ws: "walks_succeed e (map snd sp)"
    by blast+
  from f1 have m1: "mset ?paths1 = mset (map snd sp)" by (simp add: fair_range_def)
  from f2 have m2: "mset ?paths2 = mset (map snd sp)" by (simp add: fair_range_def)
  from walks_succeed_perm[OF m1, of e] ws have ws1: "walks_succeed e ?paths1" by blast
  from walks_succeed_perm[OF m2, of e] ws have ws2: "walks_succeed e ?paths2" by blast
  from si have sf: "shardFiles e' = shardFiles e" and fs: "fsys e' = fsys e"
    and hn: "hllNew e' = hllNew e" and twf: "twFail e' = twFail e" and ff: "flushFail e' = flushFail e"
    by (simp_all add: same_inputs_def)
  from ws2 sf have ws2': "walks_succeed e' ?paths2" by (simp add: walks_succeed_def)
  from tw1 twf ff have tw2: "table_writes_succeed e'" by (simp add: table_writes_succeed_def)
  from wk1 have wk2: "Walk (discover e') (flag_db_path fl) (fsys e' (flag_db_path fl)) (shardPaths cmd0) = (None, sp)"
    by (simp add: same_inputs_discover[OF si, symmetric] fs)
  have fn: "(if flag_exact fl then NewExactCounter else NewHLLCounter e') = ?fn"
    by (simp add: NewHLLCounter_def hn)
  have r1: "fst (Run e cmd0 ?fl1) = None \<and>
            index (snd (Run e cmd0 ?fl1)) = store (snd (processShards e ?fn ?paths1 ?ps0)) \<and>
            stdout_out (snd (Run e cmd0 ?fl1)) = reportLines e ?title (index (snd (Run e cmd0 ?fl1)))"
    using Run_ok[where e = e and fl = ?fl1 and ?cmd0.0 = cmd0 and sp = sp] db wk1 ne ws1 tw1
    by simp
  have r2: "fst (Run e' cmd0 ?fl2) = None \<and>
            index (snd (Run e' cmd0 ?fl2)) = store (snd (processShards e ?fn ?paths2 ?ps0)) \<and>
            stdout_out (snd (Run e' cmd0 ?fl2)) = reportLines e' ?title (index (snd (Run e' cmd0 ?fl2)))"
    using Run_ok[where e = e' and fl = ?fl2 and ?cmd0.0 = cmd0 and sp = sp] db wk2 ne ws2' tw2
    by (simp add: fn same_inputs_processShards[OF si, symmetric])
  from r1 show "fst (Run e cmd0 ?fl1) = None" by blast
  from r2 show "fst (Run e' cmd0 ?fl2) = None" by blast
  have w0: "wf_store (store ?ps0)" by (simp add: wf_store_empty)
  have c: "content (index (snd (Run e cmd0 ?fl1))) = content (index (snd (Run e' cmd0 ?fl2)))"
    using content_processShards_perm[OF ac ws1 _ w0, of ?paths2 ?fn] m1 m2 r1 r2 by simp
  then show "content (index (snd (Run e cmd0 ?fl1))) = content (index (snd (Run e' cmd0 ?fl2)))" .
  have w1: "wf_store (index (snd (Run e cmd0 ?fl1)))"
    using wf_store_processShards[OF ws1 w0, of ?fn] r1 by simp
  have w2: "wf_store (index (snd (Run e' cmd0 ?fl2)))"
    using wf_store_processShards[OF ws2 w0, of ?fn] r2 by simp
  from reportLines_perm[OF f1 f2 si w1 w2 c, of ?title] r1 r2
  show "\<exists>rows1 rows2 total.
         stdout_out (snd (Run e cmd0 ?fl1)) = [Header, Dashes] @ rows1 @ [Dashes, total] \<and>
         stdout_out (snd (Run e' cmd0 ?fl2)) = [Header, Dashes] @ rows2 @ [Dashes, total] \<and>
         mset rows1 = mset rows2"
    by simp
qed (simp_all add: Run_def Let_def split: prod.splits option.splits)

theorem concurrency_has_no_effect_witness:
  "same_inputs (scenario [''cpu,host=a#!~#value'', ''cpu,host=b#!~#value''] [''mem,host=a#!~#used''])
               (reversedScenario [''cpu,host=a#!~#value'', ''cpu,host=b#!~#value''] [''mem,host=a#!~#used'']) \<and>
   fair_range (reversedScenario [''cpu,host=a#!~#value'', ''cpu,host=b#!~#value''] [''mem,host=a#!~#used'']) \<and>
   walks_succeed (scenario [''cpu,host=a#!~#value'', ''cpu,host=b#!~#value''] [''mem,host=a#!~#used''])
     [''data/db0/autogen/1'', ''data/db0/autogen/2''] \<and>
   fst (Run (reversedScenario [''cpu,host=a#!~#value'', ''cpu,host=b#!~#value''] [''mem,host=a#!~#used''])
          (NewCommand (scenario [] [])) (scenarioFlags\<lparr>flag_c := 64\<rparr>)) = None \<and>
   content (index (snd (Run (scenario [''cpu,host=a#!~#value'', ''cpu,host=b#!~#value''] [''mem,host=a#!~#used''])
          (NewCommand (scenario [] [])) (scenarioFlags\<lparr>flag_c := 1\<rparr>)))) =
   content (index (snd (Run (reversedScenario [''cpu,host=a#!~#value'', ''cpu,host=b#!~#value''] [''mem,host=a#!~#used''])
          (NewCommand (scenario [] [])) (scenarioFlags\<lparr>flag_c := 64\<rparr>)))) \<and>
   stdout_out (snd (Run (scenario [''cpu,host=a#!~#value''] []) (NewCommand (scenario [] []))
                      (scenarioFlags\<lparr>flag_c := 1\<rparr>))) =
   stdout_out (snd (Run (scenario [''cpu,host=a#!~#value''] []) (NewCommand (scenario [] []))
                      (scenarioFlags\<lparr>flag_c := 64\<rparr>)))"
proof -
  let ?ks1 = "[''cpu,host=a#!~#value'', ''cpu,host=b#!~#value'']" and ?ks2 = "[''mem,host=a#!~#used'']"
  note T = concurrency_has_no_effect[where e = "scenario ?ks1 ?ks2" and e' = "reversedScenario ?ks1 ?ks2"
      and ?cmd0.0 = "NewCommand (scenario [] [])" and fl = scenarioFlags and ?c1.0 = 1 and ?c2.0 = 64
      and sp = "[(1, ''data/db0/autogen/1''), (2, ''data/db0/autogen/2'')]"]
  note U = concurrency_has_no_effect[where e = "scenario [''cpu,host=a#!~#value''] []"
      and ?cmd0.0 = "NewCommand (scenario [] [])" and fl = scenarioFlags and ?c1.0 = 1 and ?c2.0 = 64]
  have h: "same_inputs (scenario ?ks1 ?ks2) (reversedScenario ?ks1 ?ks2) \<and>
     fair_range (scenario ?ks1 ?ks2) \<and> fair_range (reversedScenario ?ks1 ?ks2) \<and>
     adds_commute (scenario ?ks1 ?ks2) \<and> table_writes_succeed (scenario ?ks1 ?ks2) \<and>
     flag_db_path scenarioFlags \<noteq> [] \<and>
     Walk (discover (scenario ?ks1 ?ks2)) (flag_db_path scenarioFlags)
       (fsys (scenario ?ks1 ?ks2) (flag_db_path scenarioFlags)) (shardPaths (NewCommand (scenario [] []))) =
       (None, [(1, ''data/db0/autogen/1''), (2, ''data/db0/autogen/2'')]) \<and>
     [(1::64 word, ''data/db0/autogen/1''), (2, ''data/db0/autogen/2'')] \<noteq> [] \<and>
     walks_succeed (scenario ?ks1 ?ks2) (map snd [(1::64 word, ''data/db0/autogen/1''), (2, ''data/db0/autogen/2'')])"
    using scenario_walk[of ?ks1 ?ks2]
    by (simp add: reversedScenario_same_inputs scenario_fair reversedScenario_fair scenario_adds_commute
        scenario_table_writes_succeed scenario_walks_succeed scenarioFlags_def NewCommand_def)
  from T[THEN conjunct2, rule_format, OF h] U[THEN conjunct1] h
  show ?thesis by simp
qed

text \<open>
  C9 as stated fails for the report: two runs over the same directory, files and
  flags but for \<open>-c\<close>, one ranging over the measurements in the order of insertion
  and one in the reverse order, print the rows \<open>cpu\<close>, \<open>mem\<close> and \<open>mem\<close>, \<open>cpu\<close>.
\<close>

theorem concurrency_counterexample:
  "same_inputs (scenario [''cpu,host=a#!~#value'', ''cpu,host=b#!~#value''] [''mem,host=a#!~#used''])
               (reversedScenario [''cpu,host=a#!~#value'', ''cpu,host=b#!~#value''] [''mem,host=a#!~#used'']) \<and>
   fair_range (scenario [''cpu,host=a#!~#value'', ''cpu,host=b#!~#value''] [''mem,host=a#!~#used'']) \<and>
   fair_range (reversedScenario [''cpu,host=a#!~#value'', ''cpu,host=b#!~#value''] [''mem,host=a#!~#used'']) \<and>
   stdout_out (snd (Run (scenario [''cpu,host=a#!~#value'', ''cpu,host=b#!~#value''] [''mem,host=a#!~#used''])
                      (NewCommand (scenario [] [])) (scenarioFlags\<lparr>flag_c := 1\<rparr>))) =
     [Header, Dashes, Row ''db0'' ''autogen'' ''cpu'' 2 1 2,
      Row ''db0'' ''autogen'' ''mem'' 1 1 1, Dashes, Total [] 3 2 3] \<and>
   stdout_out (snd (Run (reversedScenario [''cpu,host=a#!~#value'', ''cpu,host=b#!~#value''] [''mem,host=a#!~#used''])
                      (NewCommand (scenario [] [])) (scenarioFlags\<lparr>flag_c := 64\<rparr>))) =
     [Header, Dashes, Row ''db0'' ''autogen'' ''mem'' 1 1 1,
      Row ''db0'' ''autogen'' ''cpu'' 2 1 2, Dashes, Total [] 3 2 3] \<and>
   stdout_out (snd (Run (scenario [''cpu,host=a#!~#value'', ''cpu,host=b#!~#value''] [''mem,host=a#!~#used''])
                      (NewCommand (scenario [] [])) (scenarioFlags\<lparr>flag_c := 1\<rparr>))) \<noteq>
   stdout_out (snd (Run (reversedScenario [''cpu,host=a#!~#value'', ''cpu,host=b#!~#value''] [''mem,host=a#!~#used''])
                      (NewCommand (scenario [] [])) (scenarioFlags\<lparr>flag_c := 64\<rparr>)))"
  by (simp add: reversedScenario_same_inputs scenario_fair reversedScenario_fair
      reversedScenario_run scenario_run_c1)

section \<open>A run without shards\<close>

text \<open>
  C2, as amended. When the walk succeeds and registers no shard, \<open>Run\<close> writes the
  diagnostic \<open>No shards under <path>\<close> to standard error and returns the result of that
  write, \<open>nil\<close> when it succeeds. It returns before any counting or reporting: the
  index is empty and nothing is written to standard output.
\<close>

theorem no_shards_returns_early:
  assumes "flag_db_path fl \<noteq> []"
    and "Walk (discover e) (flag_db_path fl) (fsys e (flag_db_path fl)) (shardPaths cmd0) = (None, [])"
  shows "Run e cmd0 fl =
           (stderrFail e [] (NoShards (flag_db_path fl)),
            \<lparr>command = \<lparr>dbPath = flag_db_path fl, shardPaths = [], exact = flag_exact fl,
                         concurrency = flag_c fl\<rparr>,
             index = \<lparr>dbMap = [], heap = []\<rparr>,
             stderr_out = (if stderrFail e [] (NoShards (flag_db_path fl)) = None
                           then [NoShards (flag_db_path fl)] else []),
             stdout_out = []\<rparr>)"
  using assms by (auto simp: Run_def Let_def Fprintf_Stderr_def split: option.splits)

theorem no_shards_returns_early_witness:
  "flag_db_path scenarioFlags \<noteq> [] \<and>
   Walk (discover noShards) (flag_db_path scenarioFlags) (fsys noShards (flag_db_path scenarioFlags))
     (shardPaths (NewCommand noShards)) = (None, []) \<and>
   Run noShards (NewCommand noShards) scenarioFlags =
     (None,
      \<lparr>command = \<lparr>dbPath = ''data'', shardPaths = [], exact = True, concurrency = 8\<rparr>,
       index = \<lparr>dbMap = [], heap = []\<rparr>,
       stderr_out = [NoShards ''data''],
       stdout_out = []\<rparr>)"
proof -
  have 1: "flag_db_path scenarioFlags \<noteq> []" by (simp add: scenarioFlags_def)
  have 2: "Walk (discover noShards) (flag_db_path scenarioFlags) (fsys noShards (flag_db_path scenarioFlags))
     (shardPaths (NewCommand noShards)) = (None, [])"
    by (simp add: noShards_def scenarioFlags_def NewCommand_def Walk_def discover_def Atoi_def
        digit_def Join_def Clean_def scenario_def)
  from no_shards_returns_early[OF 1 2] have "Run noShards (NewCommand noShards) scenarioFlags =
     (None,
      \<lparr>command = \<lparr>dbPath = ''data'', shardPaths = [], exact = True, concurrency = 8\<rparr>,
       index = \<lparr>dbMap = [], heap = []\<rparr>,
       stderr_out = [NoShards ''data''],
       stdout_out = []\<rparr>)"
    by (simp add: noShards_def scenarioFlags_def scenario_def)
  with 1 2 show ?thesis by blast
qed

text \<open>
  C2 as stated fails: in a data directory without shard directories the run writes the
  diagnostic and no report; standard output is empty, not a header and a row of zeros.
\<close>

theorem no_shards_counterexample:
  "shardPaths (command (snd (Run noShards (NewCommand noShards) scenarioFlags))) = [] \<and>
   stderr_out (snd (Run noShards (NewCommand noShards) scenarioFlags)) = [NoShards ''data''] \<and>
   stdout_out (snd (Run noShards (NewCommand noShards) scenarioFlags)) = [] \<and>
   stdout_out (snd (Run noShards (NewCommand noShards) scenarioFlags)) \<noteq>
     [Header, Dashes, Dashes, Total [] 0 0 0]"
  by (simp add: Run_def Let_def noShards_def scenarioFlags_def NewCommand_def Walk_def discover_def
      Atoi_def digit_def Join_def Clean_def scenario_def Fprintf_Stderr_def)

section \<open>Properties of shard discovery\<close>

lemma discover_File [simp]: "discover e path (Some (n, False)) None sp = (WNil, sp)"
  by (simp add: discover_def)


lemma discover_err [simp]: "discover e path info (Some x) sp = (WErr x, sp)"
  by (simp add: discover_def)































end
